theory Spec2Isabelle
  imports Main "HOL-Library.Sublist"
begin

section \<open>Strings\<close>

text \<open>
  A JavaScript string is a sequence of UTF-16 code units; \<open>length\<close>, indexing, regular
  expressions without the \<open>u\<close> flag and \<open>String.prototype.replace\<close> all count code units.
  A code unit is modelled by its number, so that the Japanese literals of the source are
  ordinary values. \<open>ascii\<close> turns an ASCII literal into its code units.
\<close>

type_synonym jsstring = "nat list"

definition ascii :: "string \<Rightarrow> jsstring" where
  "ascii s = map of_char s"

abbreviation BACKTICK :: nat where "BACKTICK \<equiv> 96"
abbreviation BACKSLASH :: nat where "BACKSLASH \<equiv> 92"
abbreviation DOLLAR :: nat where "DOLLAR \<equiv> 36"
abbreviation UNDERSCORE :: nat where "UNDERSCORE \<equiv> 95"

text \<open>Template-literal rendering \<open>${n}\<close> of a counter or a timestamp: the decimal digits.\<close>

fun dec :: "nat \<Rightarrow> jsstring" where
  "dec n = (if n < 10 then [48 + n] else dec (n div 10) @ [48 + n mod 10])"

declare dec.simps [simp del]

text \<open>\<open>s.indexOf(pat)\<close>: the first position at which \<open>pat\<close> occurs, if any.\<close>

fun indexOf :: "jsstring \<Rightarrow> jsstring \<Rightarrow> nat option" where
  "indexOf pat [] = (if pat = [] then Some 0 else None)"
| "indexOf pat (c # cs) =
     (if prefix pat (c # cs) then Some 0 else map_option Suc (indexOf pat cs))"

definition includes_str :: "jsstring \<Rightarrow> jsstring \<Rightarrow> bool" where
  "includes_str s pat = (indexOf pat s \<noteq> None)"

text \<open>
  The replacement text of \<open>String.prototype.replace\<close> is a template (ECMAScript
  GetSubstitution). With a string pattern there are no capture groups, so \<open>$$\<close> is a
  dollar sign, \<open>$&\<close> the matched text, \<open>$`\<close> and \<open>$'\<close> the text before and after the
  match, and any other \<open>$\<close> stands for itself.
\<close>

fun getSubstitution :: "jsstring \<Rightarrow> jsstring \<Rightarrow> jsstring \<Rightarrow> jsstring \<Rightarrow> jsstring" where
  "getSubstitution matched pre post [] = []"
| "getSubstitution matched pre post [c] = [c]"
| "getSubstitution matched pre post (c # d # rest) =
     (if c \<noteq> DOLLAR then c # getSubstitution matched pre post (d # rest)
      else if d = DOLLAR then DOLLAR # getSubstitution matched pre post rest
      else if d = 38 then matched @ getSubstitution matched pre post rest
      else if d = BACKTICK then pre @ getSubstitution matched pre post rest
      else if d = 39 then post @ getSubstitution matched pre post rest
      else DOLLAR # getSubstitution matched pre post (d # rest))"

text \<open>\<open>s.replace(pat, replacement)\<close> with a string pattern: the first occurrence only.\<close>

definition replaceString :: "jsstring \<Rightarrow> jsstring \<Rightarrow> jsstring \<Rightarrow> jsstring" where
  "replaceString pat replacement s =
     (case indexOf pat s of
        None \<Rightarrow> s
      | Some i \<Rightarrow>
          take i s
          @ getSubstitution pat (take i s) (drop (i + length pat) s) replacement
          @ drop (i + length pat) s)"

text \<open>
  \<open>s.replace(re, fn)\<close> with a global regular expression and a replacer function that
  updates state. \<open>m\<close> is the regular expression tried at the current position: it yields
  the matched text. Matches are found left to right and do not overlap; where there is no
  match the character is copied; an empty match is replaced and the scan moves one
  character on.
\<close>

function replaceGlobal ::
  "(jsstring \<Rightarrow> jsstring option) \<Rightarrow> (jsstring \<Rightarrow> 'st \<Rightarrow> jsstring \<times> 'st)
     \<Rightarrow> jsstring \<Rightarrow> 'st \<Rightarrow> jsstring \<times> 'st" where
  "replaceGlobal m cb [] st =
     (case m [] of None \<Rightarrow> ([], st) | Some matched \<Rightarrow> cb matched st)"
| "replaceGlobal m cb (c # cs) st =
     (case m (c # cs) of
        None \<Rightarrow> (let (out, st') = replaceGlobal m cb cs st in (c # out, st'))
      | Some matched \<Rightarrow>
          (let (r, st') = cb matched st in
           if matched = [] then
             (let (out, st'') = replaceGlobal m cb cs st' in (r @ c # out, st''))
           else
             (let (out, st'') = replaceGlobal m cb (drop (length matched) (c # cs)) st'
              in (r @ out, st''))))"
  by pat_completeness auto
termination
  by (relation "measure (\<lambda>(m, cb, s, st). length s)") auto

section \<open>Structural content guard (src/utils/translation.ts)\<close>

text \<open>
  The inline pattern as the source writes it: a backtick, one or more characters other
  than a backtick (the greedy class stops only at a backtick), a backtick.
\<close>

definition matchInline :: "jsstring \<Rightarrow> jsstring option" where
  "matchInline s =
     (case s of
        [] \<Rightarrow> None
      | c # r \<Rightarrow>
          if c \<noteq> BACKTICK then None
          else let code = takeWhile (\<lambda>x. x \<noteq> BACKTICK) r;
                   rest = dropWhile (\<lambda>x. x \<noteq> BACKTICK) r
               in if code = [] \<or> rest = [] then None
                  else Some (BACKTICK # code @ [BACKTICK]))"

text \<open>
  The block pattern as the source writes it. The source text of the class is
  \<open>[\\s\\S]\<close>: an escaped backslash, \<open>s\<close>, an escaped backslash, \<open>S\<close>; it matches
  the three characters backslash, \<open>s\<close> and \<open>S\<close>. The star is lazy: the closing
  fence is tried before the class at every step.
\<close>

definition FENCE :: jsstring where
  "FENCE = [BACKTICK, BACKTICK, BACKTICK]"

fun lazyClass :: "jsstring \<Rightarrow> jsstring \<Rightarrow> jsstring option" where
  "lazyClass acc s =
     (if prefix FENCE s then Some (acc @ FENCE)
      else case s of
             [] \<Rightarrow> None
           | c # cs \<Rightarrow>
               if c = BACKSLASH \<or> c = 115 \<or> c = 83 then lazyClass (acc @ [c]) cs
               else None)"

declare lazyClass.simps [simp del]

definition matchBlock :: "jsstring \<Rightarrow> jsstring option" where
  "matchBlock s =
     (if prefix FENCE s then lazyClass FENCE (drop 3 s) else None)"

text \<open>
  A JavaScript \<open>Map\<close> keeps its keys in insertion order; \<open>set\<close> on a key that is
  present replaces the value in place.
\<close>

type_synonym placeholders = "(jsstring \<times> jsstring) list"

definition mapSet :: "jsstring \<Rightarrow> jsstring \<Rightarrow> placeholders \<Rightarrow> placeholders" where
  "mapSet k v m =
     (if k \<in> fst ` set m then map (\<lambda>(k', v'). if k' = k then (k', v) else (k', v')) m
      else m @ [(k, v)])"

definition inlinePlaceholder :: "nat \<Rightarrow> jsstring" where
  "inlinePlaceholder n = ascii ''__INLINE_CODE_'' @ dec n @ ascii ''__''"

definition blockPlaceholder :: "nat \<Rightarrow> jsstring" where
  "blockPlaceholder n = ascii ''__CODE_BLOCK_'' @ dec n @ ascii ''__''"

text \<open>The two replacer callbacks: the state is the counter and the map.\<close>

definition inlineReplacer ::
  "jsstring \<Rightarrow> nat \<times> placeholders \<Rightarrow> jsstring \<times> (nat \<times> placeholders)" where
  "inlineReplacer matched st =
     (case st of (counter, placeholders) \<Rightarrow>
        (inlinePlaceholder counter,
         (counter + 1, mapSet (inlinePlaceholder counter) matched placeholders)))"

definition blockReplacer ::
  "jsstring \<Rightarrow> nat \<times> placeholders \<Rightarrow> jsstring \<times> (nat \<times> placeholders)" where
  "blockReplacer matched st =
     (case st of (counter, placeholders) \<Rightarrow>
        (blockPlaceholder counter,
         (counter + 1, mapSet (blockPlaceholder counter) matched placeholders)))"

definition protectCodeBlocks :: "jsstring \<Rightarrow> jsstring \<times> placeholders" where
  "protectCodeBlocks content =
     (case replaceGlobal matchInline inlineReplacer content (0, []) of
        (protectedContent, st) \<Rightarrow>
          (case replaceGlobal matchBlock blockReplacer protectedContent st of
             (protectedContent', (counter, placeholders)) \<Rightarrow>
               (protectedContent', placeholders)))"

definition restoreCodeBlocks :: "jsstring \<Rightarrow> placeholders \<Rightarrow> jsstring" where
  "restoreCodeBlocks content placeholders =
     foldl (\<lambda>restoredContent (placeholder, original).
              replaceString placeholder original restoredContent)
           content placeholders"

section \<open>Thrown values and error codes (src/types/index.ts)\<close>

text \<open>
  A thrown value is an \<open>Error\<close> object (its name and message) or some other value
  (given by its string conversion). \<open>render\<close> is the text that a template literal
  \<open>${error}\<close> produces: \<open>Error.prototype.toString\<close> for an \<open>Error\<close>.
\<close>

datatype thrown = JsError jsstring jsstring | NonError jsstring

definition newError :: "jsstring \<Rightarrow> thrown" where
  "newError msg = JsError (ascii ''Error'') msg"

fun render :: "thrown \<Rightarrow> jsstring" where
  "render (JsError name msg) =
     (if name = [] then msg else if msg = [] then name else name @ ascii '': '' @ msg)"
| "render (NonError text) = text"

fun message :: "thrown \<Rightarrow> jsstring option" where
  "message (JsError name msg) = Some msg"
| "message (NonError text) = None"

datatype ErrorCode =
  INVALID_URL | FILE_NOT_FOUND | VAULT_MISMATCH | TRANSLATION_FAILED | BACKUP_FAILED
  | PERMISSION_DENIED | INVALID_PATH

fun codeString :: "ErrorCode \<Rightarrow> jsstring" where
  "codeString INVALID_URL = ascii ''INVALID_OBSIDIAN_URL''"
| "codeString FILE_NOT_FOUND = ascii ''FILE_NOT_FOUND''"
| "codeString VAULT_MISMATCH = ascii ''VAULT_MISMATCH''"
| "codeString TRANSLATION_FAILED = ascii ''TRANSLATION_FAILED''"
| "codeString BACKUP_FAILED = ascii ''BACKUP_FAILED''"
| "codeString PERMISSION_DENIED = ascii ''PERMISSION_DENIED''"
| "codeString INVALID_PATH = ascii ''INVALID_PATH''"

record ObsidianUrl =
  vault :: jsstring
  fileParam :: jsstring
  path :: jsstring

record TranslationRequest =
  url :: jsstring
  targetLanguage :: "jsstring option"
  mode :: "jsstring option"

record BackupInfo =
  originalPath :: jsstring
  backupPath :: jsstring
  timestamp :: jsstring
  backupSize :: nat

text \<open>
  Field names that Isabelle reserves or that two records share are changed: \<open>file\<close> of
  \<open>ObsidianUrl\<close> is \<open>fileParam\<close>, \<open>size\<close> of \<open>BackupInfo\<close> is \<open>backupSize\<close>, and
  \<open>backupPath\<close> and \<open>timestamp\<close> of \<open>TranslationResult\<close> carry the prefix \<open>result\<close>.
\<close>

record TranslationResult =
  originalContent :: jsstring
  translatedContent :: jsstring
  resultBackupPath :: jsstring
  resultTimestamp :: jsstring

section \<open>The world outside the program\<close>

text \<open>
  The program reaches the filesystem through \<open>fs.promises\<close>, the clock through
  \<open>Date\<close>, the console, and the generation service through the SDK client. The world
  records what those calls see and change. Regular files are kept by absolute path with
  their text (what a UTF-8 read returns) and modification time. Directories are not kept:
  an oracle of the world says, for the n-th filesystem call, whether a path that is no
  regular file is a directory at that moment, which is what \<open>access\<close> and a read need
  to know. A call that fails for another reason (a missing parent, a directory where a
  file is to be written, a permission or I/O failure) is a fault, and the fault oracle of
  the world decides it for the n-th filesystem call. Every filesystem call is logged. The
  clock is a sequence of readings; reading it moves to the next one.
\<close>

datatype fs_call =
  Access jsstring | ReadFile jsstring | WriteFile jsstring jsstring | Mkdir jsstring
  | Stat jsstring | Readdir jsstring | Unlink jsstring

datatype console_entry = ConsoleError jsstring thrown | ConsoleWarn jsstring

record world =
  files :: "(jsstring \<times> jsstring \<times> nat) list"
  fslog :: "fs_call list"
  fault :: "nat \<Rightarrow> fs_call \<Rightarrow> thrown option"
  isDirectory :: "nat \<Rightarrow> jsstring \<Rightarrow> bool"
  clock :: "nat \<Rightarrow> nat"
  reads :: nat
  requests :: "jsstring list"
  console :: "console_entry list"

type_synonym 'a io = "world \<Rightarrow> (thrown + 'a) \<times> world"

text \<open>Sequencing of calls that may throw: a throw skips the rest.\<close>

definition bindIO :: "'a io \<Rightarrow> ('a \<Rightarrow> 'b io) \<Rightarrow> 'b io" where
  "bindIO m f w = (case m w of (Inl t, w') \<Rightarrow> (Inl t, w') | (Inr x, w') \<Rightarrow> f x w')"

definition ret :: "'a \<Rightarrow> 'a io" where
  "ret x w = (Inr x, w)"

definition throw :: "thrown \<Rightarrow> 'a io" where
  "throw t w = (Inl t, w)"

text \<open>\<open>try { m } catch (error) { h error }\<close>\<close>

definition tryCatch :: "'a io \<Rightarrow> (thrown \<Rightarrow> 'a io) \<Rightarrow> 'a io" where
  "tryCatch m h w = (case m w of (Inl t, w') \<Rightarrow> h t w' | (Inr x, w') \<Rightarrow> (Inr x, w'))"

definition now :: "world \<Rightarrow> nat" where
  "now w = clock w (reads w)"

text \<open>\<open>Date.now()\<close> and \<open>new Date()\<close>\<close>

definition dateNow :: "nat io" where
  "dateNow w = (Inr (now w), w\<lparr>reads := reads w + 1\<rparr>)"

definition lookupFile :: "world \<Rightarrow> jsstring \<Rightarrow> (jsstring \<times> nat) option" where
  "lookupFile w p = map_of (files w) p"

definition readContent :: "world \<Rightarrow> jsstring \<Rightarrow> jsstring option" where
  "readContent w p = map_option fst (lookupFile w p)"

fun putFile ::
  "jsstring \<Rightarrow> jsstring \<times> nat \<Rightarrow> (jsstring \<times> jsstring \<times> nat) list
     \<Rightarrow> (jsstring \<times> jsstring \<times> nat) list" where
  "putFile p f [] = [(p, f)]"
| "putFile p f ((q, g) # rest) = (if q = p then (p, f) # rest else (q, g) # putFile p f rest)"

definition removeFile ::
  "jsstring \<Rightarrow> (jsstring \<times> jsstring \<times> nat) list \<Rightarrow> (jsstring \<times> jsstring \<times> nat) list" where
  "removeFile p fs = filter (\<lambda>(q, g). q \<noteq> p) fs"

text \<open>The error Node reports for a file that is not there.\<close>

definition ENOENT :: "string \<Rightarrow> jsstring \<Rightarrow> thrown" where
  "ENOENT syscall p =
     newError (ascii ''ENOENT: no such file or directory, '' @ ascii syscall
               @ ascii '' '' @ [39] @ p @ [39])"

text \<open>The error Node reports for a read of a directory.\<close>

definition EISDIR :: "string \<Rightarrow> thrown" where
  "EISDIR syscall =
     newError (ascii ''EISDIR: illegal operation on a directory, '' @ ascii syscall)"

text \<open>Logging a call and asking the oracle whether it faults.\<close>

definition fsCall :: "fs_call \<Rightarrow> unit io" where
  "fsCall c w =
     (case fault w (length (fslog w)) c of
        Some t \<Rightarrow> (Inl t, w\<lparr>fslog := fslog w @ [c]\<rparr>)
      | None \<Rightarrow> (Inr (), w\<lparr>fslog := fslog w @ [c]\<rparr>))"

definition fs_access :: "jsstring \<Rightarrow> unit io" where
  "fs_access p =
     bindIO (fsCall (Access p)) (\<lambda>_ w.
       case lookupFile w p of
         None \<Rightarrow>
           if isDirectory w (length (fslog w) - 1) p then (Inr (), w)
           else (Inl (ENOENT ''access'' p), w)
       | Some f \<Rightarrow> (Inr (), w))"

definition fs_readFile :: "jsstring \<Rightarrow> jsstring io" where
  "fs_readFile p =
     bindIO (fsCall (ReadFile p)) (\<lambda>_ w.
       case lookupFile w p of
         None \<Rightarrow>
           if isDirectory w (length (fslog w) - 1) p then (Inl (EISDIR ''read''), w)
           else (Inl (ENOENT ''open'' p), w)
       | Some f \<Rightarrow> (Inr (fst f), w))"

definition fs_writeFile :: "jsstring \<Rightarrow> jsstring \<Rightarrow> unit io" where
  "fs_writeFile p text =
     bindIO (fsCall (WriteFile p text)) (\<lambda>_ w.
       (Inr (), w\<lparr>files := putFile p (text, now w) (files w)\<rparr>))"

definition fs_mkdir :: "jsstring \<Rightarrow> unit io" where
  "fs_mkdir p = fsCall (Mkdir p)"

text \<open>
  The size that \<open>stat\<close> reports is the number of bytes of the UTF-8 encoding that
  \<open>writeFile\<close> stores: a surrogate pair takes four bytes, a lone surrogate is written
  as U+FFFD.
\<close>

fun utf8Length :: "jsstring \<Rightarrow> nat" where
  "utf8Length [] = 0"
| "utf8Length [c] = (if c < 128 then 1 else if c < 2048 then 2 else 3)"
| "utf8Length (c # d # rest) =
     (if c < 128 then 1 + utf8Length (d # rest)
      else if c < 2048 then 2 + utf8Length (d # rest)
      else if 55296 \<le> c \<and> c < 56320 \<and> 56320 \<le> d \<and> d < 57344 then 4 + utf8Length rest
      else 3 + utf8Length (d # rest))"

definition fs_stat :: "jsstring \<Rightarrow> (nat \<times> nat) io" where
  "fs_stat p =
     bindIO (fsCall (Stat p)) (\<lambda>_ w.
       case lookupFile w p of
         None \<Rightarrow> (Inl (ENOENT ''stat'' p), w)
       | Some f \<Rightarrow> (Inr (utf8Length (fst f), snd f), w))"

definition fs_unlink :: "jsstring \<Rightarrow> unit io" where
  "fs_unlink p =
     bindIO (fsCall (Unlink p)) (\<lambda>_ w.
       case lookupFile w p of
         None \<Rightarrow> (Inl (ENOENT ''unlink'' p), w)
       | Some f \<Rightarrow> (Inr (), w\<lparr>files := removeFile p (files w)\<rparr>))"

section \<open>Configuration and collaborators\<close>

text \<open>
  The three settings of the constructors, and the library code the program calls:
  Node's \<open>path\<close> module, the URL parser \<open>ObsidianUrlParser\<close> (its file
  \<open>utils/obsidian-url.ts\<close> is not among the sources), the \<open>gray-matter\<close> package,
  the generation service, and the calendar arithmetic of \<open>Date\<close>. They are parameters
  of the model. The generation service answers the n-th request; a response is a list of
  content blocks.
\<close>

datatype content_block = TextBlock jsstring | OtherBlock

datatype fmvalue = FmString jsstring | FmObject "(jsstring \<times> fmvalue) list" | FmOther jsstring

type_synonym frontmatter = "(jsstring \<times> fmvalue) list"

record env =
  vaultPath :: jsstring
  backupRetentionDays :: int
  configuredVault :: jsstring
  path_join :: "jsstring \<Rightarrow> jsstring \<Rightarrow> jsstring"
  path_dirname :: "jsstring \<Rightarrow> jsstring"
  path_basename :: "jsstring \<Rightarrow> jsstring \<Rightarrow> jsstring"
  path_extname :: "jsstring \<Rightarrow> jsstring"
  urlParse :: "jsstring \<Rightarrow> thrown + ObsidianUrl"
  urlValidateVault :: "jsstring \<Rightarrow> jsstring \<Rightarrow> thrown option"
  urlValidatePath :: "jsstring \<Rightarrow> thrown option"
  matterParse :: "jsstring \<Rightarrow> thrown + frontmatter \<times> jsstring"
  matterStringify :: "jsstring \<Rightarrow> frontmatter \<Rightarrow> thrown + jsstring"
  messagesCreate :: "nat \<Rightarrow> jsstring \<Rightarrow> thrown + content_block list"
  toISOString :: "nat \<Rightarrow> jsstring"
  daysBefore :: "nat \<Rightarrow> int \<Rightarrow> int"

definition liftResult :: "thrown + 'a \<Rightarrow> 'a io" where
  "liftResult r w = (r, w)"

definition liftCheck :: "thrown option \<Rightarrow> unit io" where
  "liftCheck r w = (case r of None \<Rightarrow> (Inr (), w) | Some t \<Rightarrow> (Inl t, w))"

text \<open>
  \<open>readdir\<close> with \<open>withFileTypes\<close>: the entries of a directory that are regular
  files, by name. A file is an entry of the directory when joining the directory and the
  file's base name gives the file's path.
\<close>

definition fs_readdir :: "env \<Rightarrow> jsstring \<Rightarrow> jsstring list io" where
  "fs_readdir e d =
     bindIO (fsCall (Readdir d)) (\<lambda>_ w.
       (Inr (map (\<lambda>(p, f). path_basename e p [])
               (filter (\<lambda>(p, f). path_join e d (path_basename e p []) = p) (files w))), w))"

section \<open>Sandboxed store (class FileSystemHelper)\<close>

definition getAbsolutePath :: "env \<Rightarrow> jsstring \<Rightarrow> jsstring" where
  "getAbsolutePath e relativePath = path_join e (vaultPath e) relativePath"

definition exists_file :: "env \<Rightarrow> jsstring \<Rightarrow> bool io" where
  "exists_file e filePath =
     tryCatch (bindIO (fs_access (getAbsolutePath e filePath)) (\<lambda>_. ret True))
              (\<lambda>error. ret False)"

definition quoted :: "jsstring \<Rightarrow> jsstring" where
  "quoted s = [39] @ s @ [39]"

definition readFile :: "env \<Rightarrow> jsstring \<Rightarrow> jsstring io" where
  "readFile e filePath =
     tryCatch (let absolutePath = getAbsolutePath e filePath in fs_readFile absolutePath)
       (\<lambda>error. throw (newError (codeString FILE_NOT_FOUND @ ascii '': Cannot read file ''
                                  @ quoted filePath @ ascii '': '' @ render error)))"

definition writeFile :: "env \<Rightarrow> jsstring \<Rightarrow> jsstring \<Rightarrow> unit io" where
  "writeFile e filePath content =
     tryCatch (let absolutePath = getAbsolutePath e filePath in
               bindIO (fs_mkdir (path_dirname e absolutePath)) (\<lambda>_.
               fs_writeFile absolutePath content))
       (\<lambda>error. throw (newError (codeString PERMISSION_DENIED @ ascii '': Cannot write file ''
                                  @ quoted filePath @ ascii '': '' @ render error)))"

definition createBackup :: "env \<Rightarrow> jsstring \<Rightarrow> BackupInfo io" where
  "createBackup e filePath =
     tryCatch
       (let absolutePath = getAbsolutePath e filePath in
        bindIO (fs_readFile absolutePath) (\<lambda>content.
        bindIO dateNow (\<lambda>timestamp.
          let ext = path_extname e filePath;
              baseName = path_basename e filePath ext;
              dir = path_dirname e filePath;
              backupFileName = baseName @ ascii ''.backup-'' @ dec timestamp @ ext;
              backupPath = path_join e dir backupFileName;
              backupAbsolutePath = getAbsolutePath e backupPath
          in bindIO (fs_writeFile backupAbsolutePath content) (\<lambda>_.
             bindIO (fs_stat backupAbsolutePath) (\<lambda>stats.
               ret \<lparr>originalPath = filePath,
                    backupPath = backupPath,
                    timestamp = toISOString e timestamp,
                    backupSize = fst stats\<rparr>)))))
       (\<lambda>error. throw (newError (codeString BACKUP_FAILED @ ascii '': Cannot create backup for ''
                                  @ quoted filePath @ ascii '': '' @ render error)))"

text \<open>
  The loop of \<open>cleanupOldBackups\<close> over the directory entries; \<open>cutoffDate\<close> is
  \<open>new Date()\<close> moved back by the retention days with \<open>setDate\<close>.
\<close>

fun cleanupLoop :: "env \<Rightarrow> jsstring \<Rightarrow> int \<Rightarrow> jsstring list \<Rightarrow> unit io" where
  "cleanupLoop e dirPath cutoffDate [] = ret ()"
| "cleanupLoop e dirPath cutoffDate (name # rest) =
     (if includes_str name (ascii ''.backup-'') then
        (let filePath = path_join e dirPath name in
         bindIO (fs_stat filePath) (\<lambda>stats.
         bindIO (if int (snd stats) < cutoffDate then fs_unlink filePath else ret ()) (\<lambda>_.
         cleanupLoop e dirPath cutoffDate rest)))
      else cleanupLoop e dirPath cutoffDate rest)"

definition consoleLog :: "console_entry \<Rightarrow> unit io" where
  "consoleLog entry w = (Inr (), w\<lparr>console := console w @ [entry]\<rparr>)"

definition cleanupOldBackups :: "env \<Rightarrow> jsstring \<Rightarrow> unit io" where
  "cleanupOldBackups e directory =
     tryCatch
       (let dirPath = getAbsolutePath e directory in
        bindIO (fs_readdir e dirPath) (\<lambda>entries.
        bindIO dateNow (\<lambda>today.
          let cutoffDate = daysBefore e today (backupRetentionDays e)
          in cleanupLoop e dirPath cutoffDate entries)))
       (\<lambda>error. consoleLog (ConsoleWarn (ascii ''Warning: Failed to cleanup old backups in ''
                                          @ quoted directory @ ascii '': '' @ render error)))"

section \<open>Translation engine (class TranslationService)\<close>

text \<open>
  The Japanese literals of the source, as code units: the default target language
  (``Japanese''), the heading of the append mode (``translated version''), and the three
  fixed parts of the prompt template, between which the target language (twice) and the
  text to translate are inserted.
\<close>

definition NIHONGO :: jsstring where
  "NIHONGO = [26085, 26412, 35486]"

definition HONYAKUBAN :: jsstring where
  "HONYAKUBAN = [32763, 35379, 29256]"

definition PROMPT_HEAD :: jsstring where
  "PROMPT_HEAD =
     [20197, 19979, 12398, 77, 97, 114, 107, 100, 111, 119, 110, 12486, 12461, 12473,
      12488, 12434]"

definition PROMPT_RULES :: jsstring where
  "PROMPT_RULES =
     [12395, 32763, 35379, 12375, 12390, 12367, 12384, 12373, 12356, 12290, 10, 10, 32763,
      35379, 26178, 12398, 27880, 24847, 20107, 38917, 65306, 10, 49, 46, 32, 12467, 12540,
      12489, 12502, 12525, 12483, 12463, 65288, 96, 96, 96, 12391, 22258, 12414, 12428,
      12383, 37096, 20998, 65289, 12399, 32763, 35379, 12375, 12394, 12356, 12391, 12367,
      12384, 12373, 12356, 10, 50, 46, 32, 87, 105, 107, 105, 76, 105, 110, 107, 24418,
      24335, 65288, 91, 91, 12522, 12531, 12463, 93, 93, 65289, 12392, 77, 97, 114, 107,
      100, 111, 119, 110, 12522, 12531, 12463, 24418, 24335, 65288, 91, 12486, 12461,
      12473, 12488, 93, 40, 85, 82, 76, 41, 65289, 12399, 27083, 36896, 12434, 20445,
      25345, 12375, 12390, 12367, 12384, 12373, 12356, 10, 51, 46, 32, 35211, 20986, 12375,
      65288, 35, 65289, 12398, 38542, 23652, 27083, 36896, 12399, 20445, 25345, 12375,
      12390, 12367, 12384, 12373, 12356, 10, 52, 46, 32, 31623, 26465, 26360, 12365, 12420,
      12490, 12531, 12496, 12522, 12531, 12464, 12398, 24418, 24335, 12399, 20445, 25345,
      12375, 12390, 12367, 12384, 12373, 12356, 10, 53, 46, 32, 33258, 28982, 12391, 35501,
      12415, 12420, 12377, 12356]"

definition PROMPT_TEXT :: jsstring where
  "PROMPT_TEXT =
     [12395, 32763, 35379, 12375, 12390, 12367, 12384, 12373, 12356, 10, 54, 46, 32, 25216,
      34899, 29992, 35486, 12399, 36969, 20999, 12394, 26085, 26412, 35486, 12395, 32763,
      35379, 12377, 12427, 12363, 12289, 24517, 35201, 12395, 24540, 12376, 12390, 33521,
      35486, 12398, 12414, 12414, 27531, 12375, 12390, 12367, 12384, 12373, 12356, 10, 10,
      32763, 35379, 12377, 12427, 12486, 12461, 12473, 12488, 65306, 10]"

definition PROMPT_TAIL :: jsstring where
  "PROMPT_TAIL =
     [10, 10, 32763, 35379, 12373, 12428, 12383, 12486, 12461, 12473, 12488, 12398, 12415,
      12434, 20986, 21147, 12375, 12390, 12367, 12384, 12373, 12356, 12290, 35500, 26126,
      12420, 36861, 21152, 12398, 12467, 12513, 12531, 12488, 12399, 19981, 35201, 12391,
      12377, 12290]"

definition createTranslationPrompt :: "jsstring \<Rightarrow> jsstring \<Rightarrow> jsstring" where
  "createTranslationPrompt content language =
     PROMPT_HEAD @ language @ PROMPT_RULES @ language @ PROMPT_TEXT @ content
     @ PROMPT_TAIL"

text \<open>
  \<open>String.prototype.trim\<close> removes white space and line terminators from both ends.
\<close>

definition isWhiteSpace :: "nat \<Rightarrow> bool" where
  "isWhiteSpace c =
     (c = 9 \<or> c = 10 \<or> c = 11 \<or> c = 12 \<or> c = 13 \<or> c = 32 \<or> c = 160 \<or> c = 5760
      \<or> (8192 \<le> c \<and> c \<le> 8202) \<or> c = 8232 \<or> c = 8233 \<or> c = 8239 \<or> c = 8287
      \<or> c = 12288 \<or> c = 65279)"

definition trim :: "jsstring \<Rightarrow> jsstring" where
  "trim s = rev (dropWhile isWhiteSpace (rev (dropWhile isWhiteSpace s)))"

definition MODEL :: jsstring where
  "MODEL = ascii ''claude-3-haiku-20240307''"

text \<open>
  An object literal with a spread, \<open>{...frontmatter, translated: v}\<close>: the keys of
  \<open>frontmatter\<close> in their order, then \<open>translated\<close>, which keeps its place if it was
  there.
\<close>

definition setKey :: "jsstring \<Rightarrow> fmvalue \<Rightarrow> frontmatter \<Rightarrow> frontmatter" where
  "setKey k v m =
     (if k \<in> fst ` set m then map (\<lambda>(k', v'). if k' = k then (k', v) else (k', v')) m
      else m @ [(k, v)])"

text \<open>
  The request to the service is logged before the service answers it. Reading
  \<open>content[0].type\<close> of a response without blocks throws a \<open>TypeError\<close>.
\<close>

definition anthropicMessagesCreate :: "env \<Rightarrow> jsstring \<Rightarrow> content_block list io" where
  "anthropicMessagesCreate e prompt w =
     (messagesCreate e (length (requests w)) prompt, w\<lparr>requests := requests w @ [prompt]\<rparr>)"

definition translateContent :: "env \<Rightarrow> jsstring \<Rightarrow> jsstring \<Rightarrow> jsstring io" where
  "translateContent e content language =
     tryCatch
       (bindIO (liftResult (matterParse e content)) (\<lambda>(frontmatter, bodyContent).
          if trim bodyContent = [] then ret content
          else
            let prompt = createTranslationPrompt bodyContent language in
            bindIO (anthropicMessagesCreate e prompt) (\<lambda>response.
            bindIO (case response of
                      [] \<Rightarrow> throw (JsError (ascii ''TypeError'')
                                (ascii ''Cannot read properties of undefined (reading ''
                                 @ quoted (ascii ''type'') @ ascii '')''))
                    | TextBlock text # _ \<Rightarrow> ret text
                    | OtherBlock # _ \<Rightarrow> ret bodyContent) (\<lambda>translatedContent.
            bindIO dateNow (\<lambda>date.
              let updatedFrontmatter =
                    setKey (ascii ''translated'')
                      (FmObject [(ascii ''date'', FmString (toISOString e date)),
                                 (ascii ''target_language'', FmString language),
                                 (ascii ''model'', FmString MODEL)])
                      frontmatter
              in liftResult (matterStringify e translatedContent updatedFrontmatter))))))
       (\<lambda>error. throw (newError (codeString TRANSLATION_FAILED @ ascii '': Translation failed: ''
                                  @ render error)))"

text \<open>
  \<open>translateBatch\<close>: slices of three, each settled before the next. A rejected item
  pushes \<open>contents[results.length]\<close>, which is \<open>undefined\<close> (\<open>None\<close>) outside the
  array. The calls of one slice are started together; the model runs them in the order
  of the slice.
\<close>

fun settleAll ::
  "env \<Rightarrow> jsstring \<Rightarrow> jsstring list \<Rightarrow> world \<Rightarrow> (thrown + jsstring) list \<times> world" where
  "settleAll e language [] w = ([], w)"
| "settleAll e language (content # batch) w =
     (case translateContent e content language w of
        (r, w') \<Rightarrow> (case settleAll e language batch w' of
                       (rs, w'') \<Rightarrow> (r # rs, w'')))"

fun pushSettled ::
  "jsstring list \<Rightarrow> (thrown + jsstring) list \<Rightarrow> jsstring option list \<Rightarrow> jsstring option list" where
  "pushSettled contents [] results = results"
| "pushSettled contents (Inr v # batchResults) results =
     pushSettled contents batchResults (results @ [Some v])"
| "pushSettled contents (Inl reason # batchResults) results =
     pushSettled contents batchResults
       (results @ [if length results < length contents then Some (contents ! length results)
                   else None])"

function translateBatchLoop ::
  "env \<Rightarrow> jsstring \<Rightarrow> jsstring list \<Rightarrow> nat \<Rightarrow> jsstring option list \<Rightarrow> world
     \<Rightarrow> jsstring option list \<times> world" where
  "translateBatchLoop e language contents i results w =
     (if i < length contents then
        (let batch = take 3 (drop i contents) in
         case settleAll e language batch w of
           (batchResults, w') \<Rightarrow>
             translateBatchLoop e language contents (i + 3)
               (pushSettled contents batchResults results) w')
      else (results, w))"
  by pat_completeness auto
termination
  by (relation "measure (\<lambda>(e, l, contents, i, results, w). length contents - i)") auto

definition translateBatch ::
  "env \<Rightarrow> jsstring list \<Rightarrow> jsstring \<Rightarrow> world \<Rightarrow> jsstring option list \<times> world" where
  "translateBatch e contents language w =
     translateBatchLoop e language contents 0 [] w"

section \<open>Pipeline orchestrator (class TranslateTool)\<close>

text \<open>
  \<open>s.replace(re, replacement)\<close> with a regular expression that is not global: the
  leftmost match only. \<open>m\<close> is the expression tried at the current position.
\<close>

fun replaceRegex ::
  "(jsstring \<Rightarrow> jsstring option) \<Rightarrow> jsstring \<Rightarrow> jsstring \<Rightarrow> jsstring \<Rightarrow> jsstring" where
  "replaceRegex m replacement pre [] =
     (case m [] of
        None \<Rightarrow> pre
      | Some matched \<Rightarrow> pre @ getSubstitution matched pre [] replacement)"
| "replaceRegex m replacement pre (c # cs) =
     (case m (c # cs) of
        None \<Rightarrow> replaceRegex m replacement (pre @ [c]) cs
      | Some matched \<Rightarrow>
          pre @ getSubstitution matched pre (drop (length matched) (c # cs)) replacement
          @ drop (length matched) (c # cs))"

text \<open>
  The pattern of the parallel mode as the source writes it. The source text is
  \<open>/\\.md$/\<close>: an escaped backslash, then the dot that stands for any character except
  a line terminator, then \<open>md\<close>, at the end of the string.
\<close>

definition isLineTerminator :: "nat \<Rightarrow> bool" where
  "isLineTerminator c = (c = 10 \<or> c = 13 \<or> c = 8232 \<or> c = 8233)"

definition matchBackslashAnyMd :: "jsstring \<Rightarrow> jsstring option" where
  "matchBackslashAnyMd s =
     (case s of
        [b, c, m, d] \<Rightarrow>
          if b = BACKSLASH \<and> \<not> isLineTerminator c \<and> m = 109 \<and> d = 100 then Some s
          else None
      | _ \<Rightarrow> None)"

text \<open>
  The separator of the append mode. In the source text every \<open>n\<close> follows an escaped
  backslash, so the separator holds backslashes and the letter \<open>n\<close>, not line feeds.
\<close>

definition APPEND_SEPARATOR :: jsstring where
  "APPEND_SEPARATOR =
     [BACKSLASH, 110, BACKSLASH, 110] @ ascii ''---'' @ [BACKSLASH, 110, BACKSLASH, 110]
     @ ascii ''# '' @ HONYAKUBAN @ [BACKSLASH, 110, BACKSLASH, 110]"

definition updateFileByMode ::
  "env \<Rightarrow> jsstring \<Rightarrow> jsstring \<Rightarrow> jsstring \<Rightarrow> jsstring \<Rightarrow> unit io" where
  "updateFileByMode e filePath original translated md =
     (if md = ascii ''replace'' then writeFile e filePath translated
      else if md = ascii ''append'' then
        (let appendedContent = original @ APPEND_SEPARATOR @ translated
         in writeFile e filePath appendedContent)
      else if md = ascii ''parallel'' then
        (let parallelPath = replaceRegex matchBackslashAnyMd (ascii ''.ja.md'') [] filePath
         in writeFile e parallelPath translated)
      else throw (newError (codeString TRANSLATION_FAILED @ ascii '': Invalid mode ''
                            @ quoted md)))"

text \<open>\<open>a || b\<close> on an optional string: \<open>undefined\<close> and the empty string give \<open>b\<close>.\<close>

fun orElse :: "jsstring option \<Rightarrow> jsstring \<Rightarrow> jsstring" where
  "orElse None d = d"
| "orElse (Some s) d = (if s = [] then d else s)"

text \<open>\<open>s.split('/')\<close> and \<open>parts.join('/')\<close>\<close>

fun splitSlash :: "jsstring \<Rightarrow> jsstring list" where
  "splitSlash [] = [[]]"
| "splitSlash (c # cs) =
     (if c = 47 then [] # splitSlash cs
      else (case splitSlash cs of [] \<Rightarrow> [[c]] | x # xs \<Rightarrow> (c # x) # xs))"

fun joinSlash :: "jsstring list \<Rightarrow> jsstring" where
  "joinSlash [] = []"
| "joinSlash [x] = x"
| "joinSlash (x # y # ys) = x @ [47] @ joinSlash (y # ys)"

definition execute :: "env \<Rightarrow> TranslationRequest \<Rightarrow> TranslationResult io" where
  "execute e request =
     tryCatch
       (bindIO (liftResult (urlParse e (url request))) (\<lambda>parsedUrl.
        bindIO (liftCheck (urlValidateVault e (vault parsedUrl) (configuredVault e))) (\<lambda>_.
        bindIO (liftCheck (urlValidatePath e (path parsedUrl))) (\<lambda>_.
        bindIO (exists_file e (path parsedUrl)) (\<lambda>found.
        bindIO (if \<not> found then
                  throw (newError (codeString FILE_NOT_FOUND @ ascii '': File ''
                                   @ quoted (path parsedUrl) @ ascii '' not found''))
                else ret ()) (\<lambda>_.
        bindIO (readFile e (path parsedUrl)) (\<lambda>original.
        bindIO (createBackup e (path parsedUrl)) (\<lambda>backupInfo.
        bindIO (translateContent e original (orElse (targetLanguage request) NIHONGO))
          (\<lambda>translated.
        bindIO (updateFileByMode e (path parsedUrl) original translated
                  (orElse (mode request) (ascii ''replace''))) (\<lambda>_.
        bindIO (cleanupOldBackups e (joinSlash (butlast (splitSlash (path parsedUrl))))) (\<lambda>_.
        ret \<lparr>originalContent = original,
             translatedContent = translated,
             resultBackupPath = backupPath backupInfo,
             resultTimestamp = timestamp backupInfo\<rparr>)))))))))))
       (\<lambda>error. case error of
                  JsError name msg \<Rightarrow> throw error
                | NonError text \<Rightarrow>
                    throw (newError (codeString TRANSLATION_FAILED
                                     @ ascii '': Unknown error occurred'')))"

text \<open>
  \<open>executeBatch\<close>: the loop over the addresses with the array \<open>results\<close>; a failure
  is written to the console and the loop goes on.
\<close>

fun executeBatchLoop ::
  "env \<Rightarrow> jsstring \<Rightarrow> jsstring list \<Rightarrow> TranslationResult list \<Rightarrow> world
     \<Rightarrow> TranslationResult list \<times> world" where
  "executeBatchLoop e language [] results w = (results, w)"
| "executeBatchLoop e language (u # urls) results w =
     (case execute e \<lparr>url = u, targetLanguage = Some language,
                       mode = Some (ascii ''replace'')\<rparr> w of
        (Inr result, w') \<Rightarrow> executeBatchLoop e language urls (results @ [result]) w'
      | (Inl error, w') \<Rightarrow>
          executeBatchLoop e language urls results
            (w'\<lparr>console := console w'
                   @ [ConsoleError (ascii ''Failed to translate '' @ u @ ascii '':'') error]\<rparr>))"

definition executeBatch ::
  "env \<Rightarrow> jsstring list \<Rightarrow> jsstring \<Rightarrow> world \<Rightarrow> TranslationResult list \<times> world" where
  "executeBatch e urls language w = executeBatchLoop e language urls [] w"

section \<open>Notes tool (class NotesTool)\<close>

text \<open>
  \<open>readNote\<close>, which the handler of the tool \<open>read_note\<close> calls with the path
  argument of the request as it came: the store reads the file and \<open>gray-matter\<close>
  splits it.
\<close>

definition readNote :: "env \<Rightarrow> jsstring \<Rightarrow> (jsstring \<times> frontmatter) io" where
  "readNote e notePath =
     tryCatch
       (bindIO (readFile e notePath) (\<lambda>rawContent.
        bindIO (liftResult (matterParse e rawContent)) (\<lambda>(frontmatter, content).
        ret (content, frontmatter))))
       (\<lambda>error. case error of
                  JsError name msg \<Rightarrow> throw error
                | NonError text \<Rightarrow>
                    throw (newError (codeString FILE_NOT_FOUND @ ascii '': Failed to read note ''
                                     @ quoted notePath)))"

section \<open>Node's path module for POSIX\<close>

text \<open>
  The functions of \<open>path.posix\<close> that the store calls, after Node's \<open>lib/path.js\<close>.
  \<open>normalizeString\<close> walks the segments between slashes: an empty segment and
  \<open>.\<close> are dropped, \<open>..\<close> removes the segment before it, and is kept only in a
  relative path that has nothing left to remove.
\<close>

definition DOT :: jsstring where "DOT = [46]"
definition DOTDOT :: jsstring where "DOTDOT = [46, 46]"

definition normalizeStep :: "bool \<Rightarrow> jsstring list \<Rightarrow> jsstring \<Rightarrow> jsstring list" where
  "normalizeStep allowAboveRoot res seg =
     (if seg = [] \<or> seg = DOT then res
      else if seg = DOTDOT then
        (if res \<noteq> [] \<and> last res \<noteq> DOTDOT then butlast res
         else if allowAboveRoot then res @ [DOTDOT]
         else res)
      else res @ [seg])"

definition normalizeString :: "jsstring \<Rightarrow> bool \<Rightarrow> jsstring" where
  "normalizeString p allowAboveRoot =
     joinSlash (foldl (normalizeStep allowAboveRoot) [] (splitSlash p))"

definition posixNormalize :: "jsstring \<Rightarrow> jsstring" where
  "posixNormalize p =
     (if p = [] then DOT
      else
        let isAbsolute = (hd p = 47);
            trailingSeparator = (last p = 47);
            q = normalizeString p (\<not> isAbsolute)
        in if q = [] then (if isAbsolute then [47] else if trailingSeparator then [46, 47] else DOT)
           else (let q' = (if trailingSeparator then q @ [47] else q)
                 in if isAbsolute then 47 # q' else q'))"

definition posixJoin :: "jsstring \<Rightarrow> jsstring \<Rightarrow> jsstring" where
  "posixJoin a b =
     (case filter (\<lambda>arg. arg \<noteq> []) [a, b] of
        [] \<Rightarrow> DOT
      | args \<Rightarrow> posixNormalize (joinSlash args))"

text \<open>
  \<open>dirname\<close>: the loop runs from the last index down to 1 and stops at the first
  slash that follows a character other than a slash; \<open>None\<close> stands for \<open>end = -1\<close>.
\<close>

fun dirnameLoop :: "jsstring \<Rightarrow> nat \<Rightarrow> bool \<Rightarrow> nat option" where
  "dirnameLoop p 0 matchedSlash = None"
| "dirnameLoop p (Suc i) matchedSlash =
     (if p ! Suc i = 47 then
        (if \<not> matchedSlash then Some (Suc i) else dirnameLoop p i matchedSlash)
      else dirnameLoop p i False)"

definition posixDirname :: "jsstring \<Rightarrow> jsstring" where
  "posixDirname p =
     (if p = [] then DOT
      else
        let hasRoot = (hd p = 47) in
        case dirnameLoop p (length p - 1) True of
          None \<Rightarrow> (if hasRoot then [47] else DOT)
        | Some e \<Rightarrow> (if hasRoot \<and> e = 1 then [47, 47] else take e p))"

text \<open>
  \<open>basename\<close> and \<open>extname\<close> look at the last path component, the text after the
  last slash once trailing slashes are set aside. The extension runs from the last dot of
  the component to its end; there is none when the component has no dot, starts with its
  only dot, or is \<open>..\<close>. \<open>basename\<close> removes the given suffix from the component
  unless the suffix is the whole component.
\<close>

definition lastComponent :: "jsstring \<Rightarrow> jsstring" where
  "lastComponent p =
     rev (takeWhile (\<lambda>c. c \<noteq> 47) (dropWhile (\<lambda>c. c = 47) (rev p)))"

definition posixExtname :: "jsstring \<Rightarrow> jsstring" where
  "posixExtname p =
     (let comp = lastComponent p;
          stem = rev (tl (dropWhile (\<lambda>c. c \<noteq> 46) (rev comp)));
          ext = 46 # rev (takeWhile (\<lambda>c. c \<noteq> 46) (rev comp))
      in if 46 \<notin> set comp \<or> stem = [] \<or> comp = DOTDOT then [] else ext)"

definition posixBasename :: "jsstring \<Rightarrow> jsstring \<Rightarrow> jsstring" where
  "posixBasename p ext =
     (let comp = lastComponent p in
      if ext \<noteq> [] \<and> ext = p then []
      else if ext \<noteq> [] \<and> length ext < length comp
              \<and> ext = drop (length comp - length ext) comp
      then take (length comp - length ext) comp
      else comp)"

section \<open>A configuration and a world to run the model on\<close>

text \<open>
  Stand-ins for the collaborators, for evaluating the model on examples: a parser that
  accepts addresses of the vault \<open>Main\<close>, the two validations as the specification
  describes them, a front-matter reader for a block between two \<open>---\<close> lines, a writer
  that prints the keys, a service that answers \<open>Bonjour\<close> and one that is overloaded,
  a date printed in milliseconds, and days of 86400000 milliseconds.
\<close>

definition demoPrefix :: jsstring where
  "demoPrefix = ascii ''obsidian://open?vault=Main&file=''"

definition demoParse :: "jsstring \<Rightarrow> thrown + ObsidianUrl" where
  "demoParse u =
     (if prefix demoPrefix u then
        Inr \<lparr>vault = ascii ''Main'',
             fileParam = drop (length demoPrefix) u,
             path = drop (length demoPrefix) u\<rparr>
      else Inl (newError (codeString INVALID_URL @ ascii '': Invalid Obsidian URL format'')))"

definition demoValidateVault :: "jsstring \<Rightarrow> jsstring \<Rightarrow> thrown option" where
  "demoValidateVault requested configured =
     (if requested \<noteq> configured then
        Some (newError (codeString VAULT_MISMATCH @ ascii '': Vault mismatch''))
      else None)"

definition demoValidatePath :: "jsstring \<Rightarrow> thrown option" where
  "demoValidatePath p =
     (if includes_str p DOTDOT \<or> includes_str p (ascii ''~'') \<or> prefix [47] p
         \<or> (\<exists>seg \<in> set (splitSlash p). prefix DOT seg)
      then Some (newError (codeString INVALID_PATH @ ascii '': Unsafe path''))
      else None)"

definition demoMatterParse :: "jsstring \<Rightarrow> thrown + frontmatter \<times> jsstring" where
  "demoMatterParse content =
     (if prefix (ascii ''---'' @ [10]) content then
        (case indexOf ([10] @ ascii ''---'' @ [10]) content of
           None \<Rightarrow> Inr ([], content)
         | Some i \<Rightarrow>
             Inr ([(ascii ''yaml'', FmOther (take (i - 4) (drop 4 content)))],
                  drop (i + 5) content))
      else Inr ([], content))"

fun demoShow :: "fmvalue \<Rightarrow> jsstring" where
  "demoShow (FmString s) = s"
| "demoShow (FmOther s) = s"
| "demoShow (FmObject kvs) = ascii ''{'' @ concat (map (\<lambda>(k, v). k @ ascii '';'') kvs) @ ascii ''}''"

definition demoMatterStringify :: "jsstring \<Rightarrow> frontmatter \<Rightarrow> thrown + jsstring" where
  "demoMatterStringify body fm =
     Inr (ascii ''---'' @ [10]
          @ concat (map (\<lambda>(k, v). k @ ascii '': '' @ demoShow v @ [10]) fm)
          @ ascii ''---'' @ [10] @ body)"

definition demoEnv :: env where
  "demoEnv =
     \<lparr>vaultPath = ascii ''/vault'',
      backupRetentionDays = 30,
      configuredVault = ascii ''Main'',
      path_join = posixJoin,
      path_dirname = posixDirname,
      path_basename = posixBasename,
      path_extname = posixExtname,
      urlParse = demoParse,
      urlValidateVault = demoValidateVault,
      urlValidatePath = demoValidatePath,
      matterParse = demoMatterParse,
      matterStringify = demoMatterStringify,
      messagesCreate = (\<lambda>n prompt. Inr [TextBlock (ascii ''Bonjour'')]),
      toISOString = dec,
      daysBefore = (\<lambda>t days. int t - days * 86400000)\<rparr>"

definition overloadedEnv :: env where
  "overloadedEnv =
     demoEnv\<lparr>messagesCreate :=
               (\<lambda>n prompt. Inl (JsError (ascii ''Error'') (ascii ''529 overloaded'')))\<rparr>"

definition demoWorld :: world where
  "demoWorld =
     \<lparr>files = [(ascii ''/vault/notes/a.md'', ascii ''Hello `x`'', 1000),
               (ascii ''/vault/notes/b.md'', ascii ''---'' @ [10] @ ascii ''title: b'' @ [10]
                                            @ ascii ''---'' @ [10], 1000)],
      fslog = [],
      fault = (\<lambda>n c. None),
      isDirectory = (\<lambda>n p. p = ascii ''/vault'' \<or> p = ascii ''/vault/notes''),
      clock = (\<lambda>n. 1700 + n),
      reads = 0,
      requests = [],
      console = []\<rparr>"

definition demoUrl :: "string \<Rightarrow> jsstring" where
  "demoUrl p = demoPrefix @ ascii p"

text \<open>
  What a run on \<open>notes/a.md\<close> returns with these stand-ins when the clock reads 1700.
\<close>

definition demoResult :: TranslationResult where
  "demoResult =
     \<lparr>originalContent = ascii ''Hello `x`'',
      translatedContent =
        ascii ''---'' @ [10] @ ascii ''translated: {date;target_language;model;}'' @ [10]
        @ ascii ''---'' @ [10] @ ascii ''Bonjour'',
      resultBackupPath = ascii ''notes/a.backup-1700.md'',
      resultTimestamp = ascii ''1700''\<rparr>"

text \<open>The same world with one more file, beside the vault.\<close>

definition secretWorld :: world where
  "secretWorld =
     demoWorld\<lparr>files := (ascii ''/secret.md'', ascii ''top secret'', 1000) # files demoWorld\<rparr>"

section \<open>Notions used in the statements\<close>

text \<open>The world after one more logged filesystem call.\<close>

definition logged :: "fs_call \<Rightarrow> world \<Rightarrow> world" where
  "logged c w = w\<lparr>fslog := fslog w @ [c]\<rparr>"

text \<open>The path a filesystem call is made on, and the calls made between two worlds.\<close>

fun target :: "fs_call \<Rightarrow> jsstring" where
  "target (Access p) = p"
| "target (ReadFile p) = p"
| "target (WriteFile p text) = p"
| "target (Mkdir p) = p"
| "target (Stat p) = p"
| "target (Readdir p) = p"
| "target (Unlink p) = p"

definition newCalls :: "world \<Rightarrow> world \<Rightarrow> fs_call list" where
  "newCalls w w' = drop (length (fslog w)) (fslog w')"

text \<open>
  The names a path is made of, and lying under a root: the names of the normalized root
  are the first names of the path.
\<close>

definition components :: "jsstring \<Rightarrow> jsstring list" where
  "components p = filter (\<lambda>seg. seg \<noteq> []) (splitSlash p)"

definition under :: "jsstring \<Rightarrow> jsstring \<Rightarrow> bool" where
  "under root p = prefix (components (posixNormalize root)) (components p)"

text \<open>
  The failures that \<open>executeBatch\<close> reports on the console, and what every call of the
  program does to the world at most: it adds filesystem calls to the log and leaves the
  failure reports as they are.
\<close>

fun isFailureReport :: "console_entry \<Rightarrow> bool" where
  "isFailureReport (ConsoleError label error) = True"
| "isFailureReport (ConsoleWarn text) = False"

definition failureReports :: "world \<Rightarrow> console_entry list" where
  "failureReports w = filter isFailureReport (console w)"

definition extends :: "world \<Rightarrow> world \<Rightarrow> bool" where
  "extends w w' = (prefix (fslog w) (fslog w') \<and> failureReports w' = failureReports w)"

definition quiet :: "'a io \<Rightarrow> bool" where
  "quiet m = (\<forall>w. extends w (snd (m w)))"

text \<open>
  The calls that the cleanup of old backups makes, and a world that comes from another
  by calls of some kind at most: the log grows by such calls only, and a file holds what
  it held unless it was unlinked.
\<close>

fun isCleanupCall :: "fs_call \<Rightarrow> bool" where
  "isCleanupCall (Readdir p) = True"
| "isCleanupCall (Stat p) = True"
| "isCleanupCall (Unlink p) = True"
| "isCleanupCall (Access p) = False"
| "isCleanupCall (ReadFile p) = False"
| "isCleanupCall (WriteFile p text) = False"
| "isCleanupCall (Mkdir p) = False"

fun isLookCall :: "fs_call \<Rightarrow> bool" where
  "isLookCall (Readdir p) = True"
| "isLookCall (Stat p) = True"
| "isLookCall (Unlink p) = False"
| "isLookCall (Access p) = False"
| "isLookCall (ReadFile p) = False"
| "isLookCall (WriteFile p text) = False"
| "isLookCall (Mkdir p) = False"

definition tidied :: "(fs_call \<Rightarrow> bool) \<Rightarrow> world \<Rightarrow> world \<Rightarrow> bool" where
  "tidied P w w' =
     (prefix (fslog w) (fslog w')
      \<and> (\<forall>c \<in> set (newCalls w w'). P c)
      \<and> (\<forall>p. readContent w' p = readContent w p \<or> Unlink p \<in> set (newCalls w w')))"

definition tidy :: "(fs_call \<Rightarrow> bool) \<Rightarrow> 'a io \<Rightarrow> bool" where
  "tidy P m = (\<forall>w. tidied P w (snd (m w)))"

text \<open>
  A guarded text seen as a sequence of pieces: a character left in place, or a guard of
  one of the two kinds, with its placeholder and the text it stands for. A sequence can
  be read with the placeholders (\<open>rendered\<close>) or with the texts they stand for
  (\<open>unguarded\<close>). \<open>expand\<close> puts the original text of the guards of one kind
  back as plain characters, \<open>settle\<close> their placeholders.
\<close>

datatype kind = InlineCode | CodeBlock

datatype piece = Plain nat | Guard kind jsstring jsstring

fun rendered :: "piece list \<Rightarrow> jsstring" where
  "rendered [] = []"
| "rendered (Plain c # ps) = c # rendered ps"
| "rendered (Guard k placeholder text # ps) = placeholder @ rendered ps"

fun unguarded :: "piece list \<Rightarrow> jsstring" where
  "unguarded [] = []"
| "unguarded (Plain c # ps) = c # unguarded ps"
| "unguarded (Guard k placeholder text # ps) = text @ unguarded ps"

fun guardsOf :: "kind \<Rightarrow> piece list \<Rightarrow> placeholders" where
  "guardsOf k [] = []"
| "guardsOf k (Plain c # ps) = guardsOf k ps"
| "guardsOf k (Guard k' placeholder text # ps) =
     (if k' = k then (placeholder, text) # guardsOf k ps else guardsOf k ps)"

fun expand :: "kind \<Rightarrow> piece list \<Rightarrow> piece list" where
  "expand k [] = []"
| "expand k (Plain c # ps) = Plain c # expand k ps"
| "expand k (Guard k' placeholder text # ps) =
     (if k' = k then map Plain text @ expand k ps
      else Guard k' placeholder text # expand k ps)"

fun settle :: "kind \<Rightarrow> piece list \<Rightarrow> piece list" where
  "settle k [] = []"
| "settle k (Plain c # ps) = Plain c # settle k ps"
| "settle k (Guard k' placeholder text # ps) =
     (if k' = k then map Plain placeholder @ settle k ps
      else Guard k' placeholder text # settle k ps)"

text \<open>
  A sequence of pieces is the trace of a leftmost scan with a pattern when the pattern
  matches nothing at any character left in place and matches exactly the guarded text at
  every guard, in the original text that remains from there.
\<close>

fun scanned :: "(jsstring \<Rightarrow> jsstring option) \<Rightarrow> piece list \<Rightarrow> bool" where
  "scanned m [] = True"
| "scanned m (Plain c # ps) = (m (c # unguarded ps) = None \<and> scanned m ps)"
| "scanned m (Guard k placeholder text # ps) =
     (m (text @ unguarded ps) = Some text \<and> scanned m ps)"

text \<open>The common form of the two replacer callbacks.\<close>

definition replacerWith ::
  "(nat \<Rightarrow> jsstring) \<Rightarrow> jsstring \<Rightarrow> nat \<times> placeholders \<Rightarrow> jsstring \<times> (nat \<times> placeholders)" where
  "replacerWith name matched st =
     (case st of (counter, placeholders) \<Rightarrow>
        (name counter, (counter + 1, mapSet (name counter) matched placeholders)))"

text \<open>
  The keys of a map are below a counter when each is a placeholder of a smaller number.
  The opening of a placeholder is its text before the number.
\<close>

definition keysBelow :: "nat \<Rightarrow> placeholders \<Rightarrow> bool" where
  "keysBelow n m =
     (fst ` set m \<subseteq> inlinePlaceholder ` {..<n} \<union> blockPlaceholder ` {..<n})"

fun naming :: "kind \<Rightarrow> nat \<Rightarrow> jsstring" where
  "naming InlineCode = inlinePlaceholder"
| "naming CodeBlock = blockPlaceholder"

fun opener :: "kind \<Rightarrow> jsstring" where
  "opener InlineCode = ascii ''__INLINE_CODE_''"
| "opener CodeBlock = ascii ''__CODE_BLOCK_''"

text \<open>
  A replacement text holds a pattern when a dollar sign in it is followed by a dollar
  sign, an ampersand, a backtick or an apostrophe: the pairs that
  \<open>String.prototype.replace\<close> does not copy.
\<close>

fun holdsPattern :: "jsstring \<Rightarrow> bool" where
  "holdsPattern [] = False"
| "holdsPattern [c] = False"
| "holdsPattern (c # d # rest) =
     (c = DOLLAR \<and> (d = DOLLAR \<or> d = 38 \<or> d = BACKTICK \<or> d = 39)
      \<or> holdsPattern (d # rest))"

text \<open>A placeholder without its two closing underscores.\<close>

definition unclosed :: "jsstring \<Rightarrow> jsstring" where
  "unclosed placeholder = butlast (butlast placeholder)"

text \<open>
  What restoring relies on. A guard is proper when it carries a placeholder of its kind
  and a text that starts with a backtick and holds no pattern. After a block guard the
  original text goes on with a backtick, or holds no backtick at all, or ends. A sequence
  of pieces is restorable when its guards are proper, that holds after each of its block
  guards, and its original text holds the placeholder of none of its guards, not even
  unclosed.
\<close>

fun proper :: "piece \<Rightarrow> bool" where
  "proper (Plain c) = True"
| "proper (Guard k placeholder text) =
     (placeholder \<in> range (naming k) \<and> prefix [BACKTICK] text \<and> \<not> holdsPattern text)"

definition closes :: "jsstring \<Rightarrow> bool" where
  "closes r = (r = [] \<or> hd r = BACKTICK \<or> BACKTICK \<notin> set r)"

fun afterBlocks :: "piece list \<Rightarrow> bool" where
  "afterBlocks [] = True"
| "afterBlocks (Plain c # ps) = afterBlocks ps"
| "afterBlocks (Guard k placeholder text # ps) =
     ((k = CodeBlock \<longrightarrow> closes (unguarded ps)) \<and> afterBlocks ps)"

definition restorable :: "piece list \<Rightarrow> bool" where
  "restorable ps =
     (list_all proper ps \<and> afterBlocks ps
      \<and> (\<forall>x \<in> set ps. case x of
             Plain c \<Rightarrow> True
           | Guard k placeholder text \<Rightarrow>
               \<not> includes_str (unguarded ps) (unclosed placeholder)))"

section \<open>Evaluation rules and frame properties\<close>

lemma dec_small: "n < 10 \<Longrightarrow> dec n = [48 + n]"
  by (simp add: dec.simps)

lemma dec_large: "10 \<le> n \<Longrightarrow> dec n = dec (n div 10) @ [48 + n mod 10]"
  by (subst dec.simps) simp

lemmas path_defs =
  posixJoin_def posixNormalize_def normalizeString_def normalizeStep_def DOT_def DOTDOT_def
  posixDirname_def posixBasename_def posixExtname_def lastComponent_def

lemma bindIO_Inr:
  "bindIO m f w = (Inr y, w') \<longleftrightarrow> (\<exists>x w1. m w = (Inr x, w1) \<and> f x w1 = (Inr y, w'))"
  by (auto simp: bindIO_def split: prod.splits sum.splits)

lemma lookup_putFile: "map_of (putFile p f fs) q = (if q = p then Some f else map_of fs q)"
  by (induction fs) auto

lemma exists_file_eq:
  "exists_file e p w =
     (Inr (fault w (length (fslog w)) (Access (getAbsolutePath e p)) = None
           \<and> (lookupFile w (getAbsolutePath e p) \<noteq> None
                \<or> isDirectory w (length (fslog w)) (getAbsolutePath e p))),
      logged (Access (getAbsolutePath e p)) w)"
  by (simp add: exists_file_def tryCatch_def bindIO_def fs_access_def fsCall_def ret_def
        logged_def lookupFile_def split: option.splits)

lemma readFile_eq:
  "readFile e p w =
     (case fault w (length (fslog w)) (ReadFile (getAbsolutePath e p)) of
        Some t \<Rightarrow>
          Inl (newError (codeString FILE_NOT_FOUND @ ascii '': Cannot read file '' @ quoted p
                         @ ascii '': '' @ render t))
      | None \<Rightarrow>
          (case lookupFile w (getAbsolutePath e p) of
             None \<Rightarrow>
               Inl (newError (codeString FILE_NOT_FOUND @ ascii '': Cannot read file ''
                              @ quoted p @ ascii '': ''
                              @ render (if isDirectory w (length (fslog w)) (getAbsolutePath e p)
                                        then EISDIR ''read''
                                        else ENOENT ''open'' (getAbsolutePath e p))))
           | Some f \<Rightarrow> Inr (fst f)),
      logged (ReadFile (getAbsolutePath e p)) w)"
  by (simp add: readFile_def tryCatch_def bindIO_def fs_readFile_def fsCall_def throw_def
        logged_def lookupFile_def Let_def split: option.splits)

lemma readFile_Inr:
  "readFile e p w = (Inr c, w') \<Longrightarrow>
     readContent w (getAbsolutePath e p) = Some c \<and> w' = logged (ReadFile (getAbsolutePath e p)) w"
  by (auto simp: readFile_eq readContent_def split: option.splits)

lemma writeFile_eq:
  "writeFile e p c w =
     (case fault w (length (fslog w)) (Mkdir (path_dirname e (getAbsolutePath e p))) of
        Some t \<Rightarrow>
          (Inl (newError (codeString PERMISSION_DENIED @ ascii '': Cannot write file ''
                          @ quoted p @ ascii '': '' @ render t)),
           logged (Mkdir (path_dirname e (getAbsolutePath e p))) w)
      | None \<Rightarrow>
          (case fault w (Suc (length (fslog w))) (WriteFile (getAbsolutePath e p) c) of
             Some t \<Rightarrow>
               (Inl (newError (codeString PERMISSION_DENIED @ ascii '': Cannot write file ''
                               @ quoted p @ ascii '': '' @ render t)),
                logged (WriteFile (getAbsolutePath e p) c)
                  (logged (Mkdir (path_dirname e (getAbsolutePath e p))) w))
           | None \<Rightarrow>
               (Inr (),
                (logged (WriteFile (getAbsolutePath e p) c)
                   (logged (Mkdir (path_dirname e (getAbsolutePath e p))) w))
                \<lparr>files := putFile (getAbsolutePath e p) (c, now w) (files w)\<rparr>)))"
  by (simp add: writeFile_def tryCatch_def bindIO_def fs_mkdir_def fs_writeFile_def fsCall_def
        throw_def logged_def now_def Let_def split: option.splits)

lemma createBackup_ok:
  assumes "lookupFile w (getAbsolutePath e p) = Some f"
    and "fault w (length (fslog w)) (ReadFile (getAbsolutePath e p)) = None"
    and "b = path_join e (path_dirname e p)
               (path_basename e p (path_extname e p) @ ascii ''.backup-'' @ dec (now w)
                @ path_extname e p)"
    and "fault w (Suc (length (fslog w))) (WriteFile (getAbsolutePath e b) (fst f)) = None"
    and "fault w (Suc (Suc (length (fslog w)))) (Stat (getAbsolutePath e b)) = None"
  shows "createBackup e p w =
           (Inr \<lparr>originalPath = p, backupPath = b, timestamp = toISOString e (now w),
                 backupSize = utf8Length (fst f)\<rparr>,
            w\<lparr>files := putFile (getAbsolutePath e b) (fst f, clock w (Suc (reads w))) (files w),
              fslog := fslog w @ [ReadFile (getAbsolutePath e p),
                                  WriteFile (getAbsolutePath e b) (fst f),
                                  Stat (getAbsolutePath e b)],
              reads := Suc (reads w)\<rparr>)"
  using assms
  by (simp add: createBackup_def tryCatch_def bindIO_def fs_readFile_def fs_writeFile_def
        fs_stat_def fsCall_def dateNow_def now_def ret_def lookupFile_def Let_def lookup_putFile)

lemma createBackup_Inr:
  assumes "createBackup e p w = (Inr info, w')"
  shows "\<exists>c. readContent w (getAbsolutePath e p) = Some c
           \<and> info = \<lparr>originalPath = p,
                      backupPath = path_join e (path_dirname e p)
                         (path_basename e p (path_extname e p) @ ascii ''.backup-''
                          @ dec (now w) @ path_extname e p),
                      timestamp = toISOString e (now w),
                      backupSize = utf8Length c\<rparr>
           \<and> w' = w\<lparr>files := putFile (getAbsolutePath e (backupPath info))
                                  (c, clock w (Suc (reads w))) (files w),
                      fslog := fslog w @ [ReadFile (getAbsolutePath e p),
                                          WriteFile (getAbsolutePath e (backupPath info)) c,
                                          Stat (getAbsolutePath e (backupPath info))],
                      reads := Suc (reads w)\<rparr>"
  using assms
  by (auto simp: createBackup_def tryCatch_def bindIO_def fs_readFile_def fs_writeFile_def
        fs_stat_def fsCall_def dateNow_def now_def ret_def throw_def lookupFile_def
        readContent_def Let_def lookup_putFile
      split: option.splits sum.splits prod.splits if_splits)

lemma createBackup_Inl:
  assumes "createBackup e p w = (Inl t, w')"
  shows "(\<exists>cause. t = newError (codeString BACKUP_FAILED @ ascii '': Cannot create backup for ''
                                 @ quoted p @ ascii '': '' @ cause))
         \<and> readContent w' (getAbsolutePath e p) = readContent w (getAbsolutePath e p)"
  using assms
  by (auto simp: createBackup_def tryCatch_def bindIO_def fs_readFile_def fs_writeFile_def
        fs_stat_def fsCall_def dateNow_def now_def ret_def throw_def lookupFile_def
        readContent_def Let_def lookup_putFile
      split: option.splits sum.splits prod.splits if_splits)

lemma createBackup_fails:
  assumes "readContent w (getAbsolutePath e p) = None
           \<or> fault w (length (fslog w)) (ReadFile (getAbsolutePath e p)) \<noteq> None
           \<or> (\<exists>c. readContent w (getAbsolutePath e p) = Some c
                  \<and> fault w (Suc (length (fslog w)))
                       (WriteFile (getAbsolutePath e
                          (path_join e (path_dirname e p)
                             (path_basename e p (path_extname e p) @ ascii ''.backup-''
                              @ dec (now w) @ path_extname e p))) c) \<noteq> None)"
  shows "isl (fst (createBackup e p w))"
  using assms
  by (auto simp: createBackup_def tryCatch_def bindIO_def fs_readFile_def fs_writeFile_def
        fs_stat_def fsCall_def dateNow_def now_def ret_def throw_def lookupFile_def
        readContent_def Let_def lookup_putFile
      split: option.splits sum.splits prod.splits if_splits)

lemma demo_abs_a: "getAbsolutePath demoEnv (ascii ''notes/a.md'') = ascii ''/vault/notes/a.md''"
  by (simp add: getAbsolutePath_def demoEnv_def path_defs ascii_def)

lemma demo_backup_name:
  "path_join demoEnv (path_dirname demoEnv (ascii ''notes/a.md''))
     (path_basename demoEnv (ascii ''notes/a.md'') (path_extname demoEnv (ascii ''notes/a.md''))
      @ ascii ''.backup-'' @ dec 1700 @ path_extname demoEnv (ascii ''notes/a.md''))
   = ascii ''notes/a.backup-1700.md''"
  by (simp add: demoEnv_def path_defs ascii_def dec_small dec_large)

lemma demo_abs_backup:
  "getAbsolutePath demoEnv (ascii ''notes/a.backup-1700.md'') = ascii ''/vault/notes/a.backup-1700.md''"
  by (simp add: getAbsolutePath_def demoEnv_def path_defs ascii_def)

lemma demo_lookup_a:
  "lookupFile demoWorld (ascii ''/vault/notes/a.md'') = Some (ascii ''Hello `x`'', 1000)"
  by (simp add: lookupFile_def demoWorld_def ascii_def)

lemma demo_now: "now demoWorld = 1700"
  by (simp add: now_def demoWorld_def)

lemma demo_backup:
  "createBackup demoEnv (ascii ''notes/a.md'') demoWorld =
     (Inr \<lparr>originalPath = ascii ''notes/a.md'', backupPath = ascii ''notes/a.backup-1700.md'',
           timestamp = toISOString demoEnv 1700, backupSize = utf8Length (ascii ''Hello `x`'')\<rparr>,
      demoWorld\<lparr>files := putFile (ascii ''/vault/notes/a.backup-1700.md'')
                            (ascii ''Hello `x`'', clock demoWorld (Suc (reads demoWorld)))
                            (files demoWorld),
                fslog := fslog demoWorld @ [ReadFile (ascii ''/vault/notes/a.md''),
                          WriteFile (ascii ''/vault/notes/a.backup-1700.md'') (ascii ''Hello `x`''),
                          Stat (ascii ''/vault/notes/a.backup-1700.md'')],
                reads := Suc (reads demoWorld)\<rparr>)"
proof -
  have f: "fault demoWorld = (\<lambda>n c. None)"
    by (simp add: demoWorld_def)
  show ?thesis
    using createBackup_ok [of demoWorld demoEnv "ascii ''notes/a.md''"
        "(ascii ''Hello `x`'', 1000)" "ascii ''notes/a.backup-1700.md''"]
    by (simp add: demo_abs_a demo_lookup_a demo_now demo_backup_name demo_abs_backup f)
qed

section \<open>Sandboxed store: the backup\<close>

text \<open>
  Claim C7. When \<open>createBackup\<close> succeeds on a path, the file at that path was
  readable, the backup path is the join of the path's directory with
  \<open><base>.backup-<milliseconds><ext>\<close>, the file at the backup path holds the text the
  source held at the call, the source still holds it, and the record carries the original
  path, the backup path, the timestamp and the size of the backup in bytes. When it fails,
  the error is \<open>BACKUP_FAILED\<close> with the cause in its message and the source holds what it
  held. It fails whenever the source cannot be read or the write of the backup faults.
\<close>

theorem createBackup_contract:
  "(\<forall>info w'. createBackup e p w = (Inr info, w') \<longrightarrow>
      (\<exists>c. readContent w (getAbsolutePath e p) = Some c
          \<and> backupPath info =
              path_join e (path_dirname e p)
                (path_basename e p (path_extname e p) @ ascii ''.backup-'' @ dec (now w)
                 @ path_extname e p)
          \<and> readContent w' (getAbsolutePath e (backupPath info)) = Some c
          \<and> readContent w' (getAbsolutePath e p) = Some c
          \<and> originalPath info = p
          \<and> timestamp info = toISOString e (now w)
          \<and> backupSize info = utf8Length c))
   \<and> (\<forall>t w'. createBackup e p w = (Inl t, w') \<longrightarrow>
         (\<exists>cause. t = newError (codeString BACKUP_FAILED @ ascii '': Cannot create backup for ''
                                 @ quoted p @ ascii '': '' @ cause))
         \<and> readContent w' (getAbsolutePath e p) = readContent w (getAbsolutePath e p))
   \<and> (readContent w (getAbsolutePath e p) = None
        \<or> fault w (length (fslog w)) (ReadFile (getAbsolutePath e p)) \<noteq> None
        \<or> (\<exists>c. readContent w (getAbsolutePath e p) = Some c
               \<and> fault w (Suc (length (fslog w)))
                    (WriteFile (getAbsolutePath e
                       (path_join e (path_dirname e p)
                          (path_basename e p (path_extname e p) @ ascii ''.backup-''
                           @ dec (now w) @ path_extname e p))) c) \<noteq> None)
        \<longrightarrow> isl (fst (createBackup e p w)))"
proof (intro conjI allI impI)
  fix info w'
  assume ok: "createBackup e p w = (Inr info, w')"
  from createBackup_Inr [OF ok] obtain c where
    c: "readContent w (getAbsolutePath e p) = Some c"
    and info: "info = \<lparr>originalPath = p,
                      backupPath = path_join e (path_dirname e p)
                         (path_basename e p (path_extname e p) @ ascii ''.backup-''
                          @ dec (now w) @ path_extname e p),
                      timestamp = toISOString e (now w),
                      backupSize = utf8Length c\<rparr>"
    and w': "w' = w\<lparr>files := putFile (getAbsolutePath e (backupPath info))
                                  (c, clock w (Suc (reads w))) (files w),
                      fslog := fslog w @ [ReadFile (getAbsolutePath e p),
                                          WriteFile (getAbsolutePath e (backupPath info)) c,
                                          Stat (getAbsolutePath e (backupPath info))],
                      reads := Suc (reads w)\<rparr>"
    by blast
  have "readContent w' (getAbsolutePath e (backupPath info)) = Some c"
    by (subst w') (simp add: readContent_def lookupFile_def lookup_putFile)
  moreover have "readContent w' (getAbsolutePath e p) = Some c"
    using c by (subst w') (simp add: readContent_def lookupFile_def lookup_putFile)
  ultimately show "\<exists>c. readContent w (getAbsolutePath e p) = Some c
          \<and> backupPath info =
              path_join e (path_dirname e p)
                (path_basename e p (path_extname e p) @ ascii ''.backup-'' @ dec (now w)
                 @ path_extname e p)
          \<and> readContent w' (getAbsolutePath e (backupPath info)) = Some c
          \<and> readContent w' (getAbsolutePath e p) = Some c
          \<and> originalPath info = p
          \<and> timestamp info = toISOString e (now w)
          \<and> backupSize info = utf8Length c"
    using c info by auto
next
  fix t w'
  assume "createBackup e p w = (Inl t, w')"
  from createBackup_Inl [OF this]
  show "\<exists>cause. t = newError (codeString BACKUP_FAILED @ ascii '': Cannot create backup for ''
                                 @ quoted p @ ascii '': '' @ cause)"
    and "readContent w' (getAbsolutePath e p) = readContent w (getAbsolutePath e p)"
    by blast+
next
  assume "readContent w (getAbsolutePath e p) = None
        \<or> fault w (length (fslog w)) (ReadFile (getAbsolutePath e p)) \<noteq> None
        \<or> (\<exists>c. readContent w (getAbsolutePath e p) = Some c
               \<and> fault w (Suc (length (fslog w)))
                    (WriteFile (getAbsolutePath e
                       (path_join e (path_dirname e p)
                          (path_basename e p (path_extname e p) @ ascii ''.backup-''
                           @ dec (now w) @ path_extname e p))) c) \<noteq> None)"
  then show "isl (fst (createBackup e p w))"
    by (rule createBackup_fails)
qed

theorem createBackup_contract_witness:
  "fst (createBackup demoEnv (ascii ''notes/a.md'') demoWorld) =
     Inr \<lparr>originalPath = ascii ''notes/a.md'', backupPath = ascii ''notes/a.backup-1700.md'',
          timestamp = ascii ''1700'', backupSize = 9\<rparr>
   \<and> readContent (snd (createBackup demoEnv (ascii ''notes/a.md'') demoWorld))
        (ascii ''/vault/notes/a.backup-1700.md'') = Some (ascii ''Hello `x`'')
   \<and> readContent (snd (createBackup demoEnv (ascii ''notes/a.md'') demoWorld))
        (ascii ''/vault/notes/a.md'') = Some (ascii ''Hello `x`'')
   \<and> readContent demoWorld (getAbsolutePath demoEnv (ascii ''notes/zz.md'')) = None
   \<and> isl (fst (createBackup demoEnv (ascii ''notes/zz.md'') demoWorld))"
proof -
  have zz: "readContent demoWorld (getAbsolutePath demoEnv (ascii ''notes/zz.md'')) = None"
    by (simp add: readContent_def lookupFile_def demoWorld_def getAbsolutePath_def demoEnv_def
          path_defs ascii_def)
  have iso: "toISOString demoEnv 1700 = ascii ''1700''"
    by (simp add: demoEnv_def dec_small dec_large ascii_def)
  have len: "utf8Length (ascii ''Hello `x`'') = 9"
    by (simp add: ascii_def)
  note ok = demo_backup
  note c1 = createBackup_contract [of demoEnv "ascii ''notes/a.md''" demoWorld,
      THEN conjunct1, rule_format, OF ok]
  note c2 = createBackup_contract [of demoEnv "ascii ''notes/zz.md''" demoWorld,
      THEN conjunct2, THEN conjunct2, rule_format]
  from c1 obtain c where
    c: "readContent demoWorld (getAbsolutePath demoEnv (ascii ''notes/a.md'')) = Some c"
    and b: "readContent (snd (createBackup demoEnv (ascii ''notes/a.md'') demoWorld))
             (getAbsolutePath demoEnv (ascii ''notes/a.backup-1700.md'')) = Some c"
    and s: "readContent (snd (createBackup demoEnv (ascii ''notes/a.md'') demoWorld))
             (getAbsolutePath demoEnv (ascii ''notes/a.md'')) = Some c"
    by (auto simp: ok)
  from c have "c = ascii ''Hello `x`''"
    by (simp add: demo_abs_a readContent_def demo_lookup_a)
  with b s have "readContent (snd (createBackup demoEnv (ascii ''notes/a.md'') demoWorld))
               (ascii ''/vault/notes/a.backup-1700.md'') = Some (ascii ''Hello `x`'')
           \<and> readContent (snd (createBackup demoEnv (ascii ''notes/a.md'') demoWorld))
               (ascii ''/vault/notes/a.md'') = Some (ascii ''Hello `x`'')"
    by (simp add: demo_abs_a demo_abs_backup)
  moreover from c2 zz have "isl (fst (createBackup demoEnv (ascii ''notes/zz.md'') demoWorld))"
    by blast
  ultimately show ?thesis
    using zz by (simp add: ok iso len)
qed

section \<open>Pipeline orchestrator: the parallel mode\<close>

lemma matchBackslashAnyMd_None: "BACKSLASH \<notin> set s \<Longrightarrow> matchBackslashAnyMd s = None"
  by (auto simp: matchBackslashAnyMd_def split: list.splits)

lemma replaceRegex_no_backslash:
  "BACKSLASH \<notin> set s \<Longrightarrow> replaceRegex matchBackslashAnyMd r pre s = pre @ s"
proof (induction s arbitrary: pre)
  case Nil
  then show ?case by (simp add: matchBackslashAnyMd_def)
next
  case (Cons c cs)
  have "matchBackslashAnyMd (c # cs) = None"
    using Cons.prems by (rule matchBackslashAnyMd_None)
  then show ?case using Cons by simp
qed

lemma mode_names:
  "ascii ''parallel'' \<noteq> ascii ''replace''" "ascii ''parallel'' \<noteq> ascii ''append''"
  "ascii ''append'' \<noteq> ascii ''replace''"
  by (simp_all add: ascii_def)

lemma parallel_is_replace:
  "BACKSLASH \<notin> set filePath \<Longrightarrow>
     updateFileByMode e filePath original translated (ascii ''parallel'')
     = updateFileByMode e filePath original translated (ascii ''replace'')"
  by (simp add: updateFileByMode_def replaceRegex_no_backslash mode_names)

lemma demo_fault: "fault demoWorld n c = None"
  by (simp add: demoWorld_def)

lemma demo_dirname_abs_a:
  "path_dirname demoEnv (ascii ''/vault/notes/a.md'') = ascii ''/vault/notes''"
  by (simp add: demoEnv_def path_defs ascii_def)

text \<open>
  Claim C1, evaluated. For the note \<open>notes/a.md\<close> the pattern of the parallel mode
  finds no match, so the path written is the source path itself: after the call the
  source holds the translation, and no file \<open>notes/a.ja.md\<close> exists; the files of
  the vault are the ones that were there before.
\<close>

theorem parallel_mode_overwrites_source:
  "replaceRegex matchBackslashAnyMd (ascii ''.ja.md'') [] (ascii ''notes/a.md'')
     = ascii ''notes/a.md''
   \<and> fst (updateFileByMode demoEnv (ascii ''notes/a.md'') (ascii ''Hello `x`'')
            (ascii ''Bonjour'') (ascii ''parallel'') demoWorld) = Inr ()
   \<and> readContent demoWorld (ascii ''/vault/notes/a.md'') = Some (ascii ''Hello `x`'')
   \<and> readContent (snd (updateFileByMode demoEnv (ascii ''notes/a.md'') (ascii ''Hello `x`'')
                          (ascii ''Bonjour'') (ascii ''parallel'') demoWorld))
        (ascii ''/vault/notes/a.md'') = Some (ascii ''Bonjour'')
   \<and> readContent (snd (updateFileByMode demoEnv (ascii ''notes/a.md'') (ascii ''Hello `x`'')
                          (ascii ''Bonjour'') (ascii ''parallel'') demoWorld))
        (ascii ''/vault/notes/a.ja.md'') = None
   \<and> map fst (files (snd (updateFileByMode demoEnv (ascii ''notes/a.md'') (ascii ''Hello `x`'')
                             (ascii ''Bonjour'') (ascii ''parallel'') demoWorld)))
      = map fst (files demoWorld)"
proof -
  have nb: "BACKSLASH \<notin> set (ascii ''notes/a.md'')"
    by (simp add: ascii_def)
  have r: "replaceRegex matchBackslashAnyMd (ascii ''.ja.md'') [] (ascii ''notes/a.md'')
             = ascii ''notes/a.md''"
    using replaceRegex_no_backslash [OF nb, of "ascii ''.ja.md''" "[]"] by simp
  have u: "updateFileByMode demoEnv (ascii ''notes/a.md'') (ascii ''Hello `x`'')
             (ascii ''Bonjour'') (ascii ''parallel'') demoWorld
           = (Inr (),
              (logged (WriteFile (ascii ''/vault/notes/a.md'') (ascii ''Bonjour''))
                 (logged (Mkdir (ascii ''/vault/notes'')) demoWorld))
              \<lparr>files := putFile (ascii ''/vault/notes/a.md'') (ascii ''Bonjour'', now demoWorld)
                          (files demoWorld)\<rparr>)"
    by (simp add: updateFileByMode_def mode_names r writeFile_eq demo_abs_a
          demo_dirname_abs_a demo_fault)
  have f: "files demoWorld =
             [(ascii ''/vault/notes/a.md'', ascii ''Hello `x`'', 1000),
              (ascii ''/vault/notes/b.md'',
               ascii ''---'' @ [10] @ ascii ''title: b'' @ [10] @ ascii ''---'' @ [10], 1000)]"
    by (simp add: demoWorld_def)
  show ?thesis
    unfolding r u
    by (simp add: readContent_def lookupFile_def logged_def f ascii_def)
qed

section \<open>Translation engine\<close>

lemma trim_blank: "(\<forall>c \<in> set s. isWhiteSpace c) \<Longrightarrow> trim s = []"
proof -
  assume "\<forall>c \<in> set s. isWhiteSpace c"
  then have d: "dropWhile isWhiteSpace s = []"
    by (simp add: dropWhile_eq_Nil_conv)
  show ?thesis
    unfolding trim_def d by simp
qed

lemma translateContent_blank:
  assumes "matterParse e content = Inr (frontmatter, bodyContent)" and "trim bodyContent = []"
  shows "translateContent e content language w = (Inr content, w)"
  using assms
  by (simp add: translateContent_def tryCatch_def bindIO_def liftResult_def ret_def)

lemma translateContent_call_fails:
  assumes "matterParse e content = Inr (frontmatter, bodyContent)"
    and "trim bodyContent \<noteq> []"
    and "messagesCreate e (length (requests w)) (createTranslationPrompt bodyContent language)
           = Inl cause"
  shows "translateContent e content language w =
           (Inl (newError (codeString TRANSLATION_FAILED @ ascii '': Translation failed: ''
                           @ render cause)),
            w\<lparr>requests := requests w @ [createTranslationPrompt bodyContent language]\<rparr>)"
  using assms
  by (simp add: translateContent_def tryCatch_def bindIO_def liftResult_def ret_def throw_def
        anthropicMessagesCreate_def Let_def)

lemma translateContent_text:
  assumes "matterParse e content = Inr (frontmatter, bodyContent)"
    and "trim bodyContent \<noteq> []"
    and "messagesCreate e (length (requests w)) (createTranslationPrompt bodyContent language)
           = Inr (TextBlock text # blocks)"
    and "matterStringify e text
           (setKey (ascii ''translated'')
              (FmObject [(ascii ''date'', FmString (toISOString e (now w))),
                         (ascii ''target_language'', FmString language),
                         (ascii ''model'', FmString MODEL)])
              frontmatter) = Inr result"
  shows "translateContent e content language w =
           (Inr result,
            w\<lparr>requests := requests w @ [createTranslationPrompt bodyContent language],
              reads := Suc (reads w)\<rparr>)"
  using assms
  by (simp add: translateContent_def tryCatch_def bindIO_def liftResult_def ret_def throw_def
        anthropicMessagesCreate_def dateNow_def now_def Let_def)

lemma translateContent_frame:
  assumes "translateContent e content language w = (r, w')"
  shows "files w' = files w \<and> fslog w' = fslog w \<and> console w' = console w
         \<and> fault w' = fault w \<and> clock w' = clock w"
  using assms
  by (auto simp: translateContent_def tryCatch_def bindIO_def liftResult_def ret_def throw_def
        anthropicMessagesCreate_def dateNow_def now_def Let_def
      split: sum.splits prod.splits if_splits list.splits content_block.splits)

text \<open>
  Claim C8. When the body that the front-matter reader returns is empty or holds only
  white space, \<open>translateContent\<close> returns the content it was given and leaves the world
  as it was: in particular the list of requests sent to the generation service is
  unchanged.
\<close>

theorem translateContent_blank_body:
  assumes "matterParse e content = Inr (frontmatter, bodyContent)"
    and "\<forall>c \<in> set bodyContent. isWhiteSpace c"
  shows "translateContent e content language w = (Inr content, w)
         \<and> requests (snd (translateContent e content language w)) = requests w"
  using translateContent_blank [OF assms(1) trim_blank [OF assms(2)]] by simp

lemma demo_matter_b:
  "matterParse demoEnv (ascii ''---'' @ [10] @ ascii ''title: b'' @ [10] @ ascii ''---'' @ [10])
     = Inr ([(ascii ''yaml'', FmOther (ascii ''title: b''))], [])"
  by (simp add: demoEnv_def demoMatterParse_def ascii_def)

lemma demo_matter_blank:
  "matterParse demoEnv ([32, 10, 9]) = Inr ([], [32, 10, 9])"
  by (simp add: demoEnv_def demoMatterParse_def ascii_def)

theorem translateContent_blank_body_witness:
  "translateContent demoEnv (ascii ''---'' @ [10] @ ascii ''title: b'' @ [10] @ ascii ''---'' @ [10])
     (ascii ''French'') demoWorld
   = (Inr (ascii ''---'' @ [10] @ ascii ''title: b'' @ [10] @ ascii ''---'' @ [10]), demoWorld)
   \<and> translateContent demoEnv [32, 10, 9] (ascii ''French'') demoWorld
       = (Inr [32, 10, 9], demoWorld)"
proof -
  have "\<forall>c \<in> set ([32, 10, 9] :: jsstring). isWhiteSpace c"
    by (simp add: isWhiteSpace_def)
  from translateContent_blank_body [OF demo_matter_blank this]
  have "translateContent demoEnv [32, 10, 9] (ascii ''French'') demoWorld
          = (Inr [32, 10, 9], demoWorld)"
    by blast
  moreover
  have "\<forall>c \<in> set ([] :: jsstring). isWhiteSpace c"
    by simp
  from translateContent_blank_body [OF demo_matter_b this]
  have "translateContent demoEnv
          (ascii ''---'' @ [10] @ ascii ''title: b'' @ [10] @ ascii ''---'' @ [10])
          (ascii ''French'') demoWorld
        = (Inr (ascii ''---'' @ [10] @ ascii ''title: b'' @ [10] @ ascii ''---'' @ [10]),
           demoWorld)"
    by blast
  ultimately show ?thesis by simp
qed

lemma demo_matter_a: "matterParse demoEnv (ascii ''Hello `x`'') = Inr ([], ascii ''Hello `x`'')"
  by (simp add: demoEnv_def demoMatterParse_def ascii_def)

lemma demo_trim_a: "trim (ascii ''Hello `x`'') \<noteq> []"
  by (simp add: trim_def ascii_def isWhiteSpace_def)

lemma demo_stringify:
  "matterStringify demoEnv (ascii ''Bonjour'')
     (setKey (ascii ''translated'')
        (FmObject [(ascii ''date'', FmString d), (ascii ''target_language'', FmString l),
                   (ascii ''model'', FmString m)]) [])
   = Inr (ascii ''---'' @ [10] @ ascii ''translated: {date;target_language;model;}'' @ [10]
          @ ascii ''---'' @ [10] @ ascii ''Bonjour'')"
  by (simp add: demoEnv_def demoMatterStringify_def setKey_def ascii_def)

lemma demo_translate_a:
  "translateContent demoEnv (ascii ''Hello `x`'') (ascii ''French'') demoWorld =
     (Inr (ascii ''---'' @ [10] @ ascii ''translated: {date;target_language;model;}'' @ [10]
           @ ascii ''---'' @ [10] @ ascii ''Bonjour''),
      demoWorld\<lparr>requests := requests demoWorld
                    @ [createTranslationPrompt (ascii ''Hello `x`'') (ascii ''French'')],
                reads := Suc (reads demoWorld)\<rparr>)"
proof -
  have m: "messagesCreate demoEnv (length (requests demoWorld))
             (createTranslationPrompt (ascii ''Hello `x`'') (ascii ''French''))
           = Inr (TextBlock (ascii ''Bonjour'') # [])"
    by (simp add: demoEnv_def)
  show ?thesis
    by (rule translateContent_text [OF demo_matter_a demo_trim_a m demo_stringify])
qed

text \<open>
  Claim C2, evaluated. For the note text \<open>Hello `x`\<close> the guard would give
  \<open>Hello __INLINE_CODE_0__\<close>, but \<open>translateContent\<close> calls neither
  \<open>protectCodeBlocks\<close> nor \<open>restoreCodeBlocks\<close>: the one request it sends is the
  prompt built from the body as it stands, and what it returns is the answer of the
  service under the new front matter. With a service that answers \<open>Bonjour\<close> the inline
  code span of the input is not in the returned document.
\<close>

theorem translateContent_sends_unguarded_body:
  "fst (protectCodeBlocks (ascii ''Hello `x`'')) = ascii ''Hello __INLINE_CODE_0__''
   \<and> requests (snd (translateContent demoEnv (ascii ''Hello `x`'') (ascii ''French'') demoWorld))
       = [createTranslationPrompt (ascii ''Hello `x`'') (ascii ''French'')]
   \<and> fst (translateContent demoEnv (ascii ''Hello `x`'') (ascii ''French'') demoWorld)
       = Inr (ascii ''---'' @ [10] @ ascii ''translated: {date;target_language;model;}'' @ [10]
              @ ascii ''---'' @ [10] @ ascii ''Bonjour'')
   \<and> \<not> includes_str
          (ascii ''---'' @ [10] @ ascii ''translated: {date;target_language;model;}'' @ [10]
           @ ascii ''---'' @ [10] @ ascii ''Bonjour'')
          (ascii ''`x`'')"
proof -
  have p: "fst (protectCodeBlocks (ascii ''Hello `x`'')) = ascii ''Hello __INLINE_CODE_0__''"
    by code_simp
  have r: "requests demoWorld = []"
    by (simp add: demoWorld_def)
  have i: "\<not> includes_str
          (ascii ''---'' @ [10] @ ascii ''translated: {date;target_language;model;}'' @ [10]
           @ ascii ''---'' @ [10] @ ascii ''Bonjour'')
          (ascii ''`x`'')"
    by (simp add: includes_str_def ascii_def)
  show ?thesis
    unfolding demo_translate_a using p i by (simp add: r)
qed

section \<open>Pipeline orchestrator: a failing translation\<close>

lemma execute_translation_fails:
  assumes "urlParse e (url request) = Inr parsedUrl"
    and "urlValidateVault e (vault parsedUrl) (configuredVault e) = None"
    and "urlValidatePath e (path parsedUrl) = None"
    and "exists_file e (path parsedUrl) w = (Inr True, w1)"
    and "readFile e (path parsedUrl) w1 = (Inr original, w2)"
    and "createBackup e (path parsedUrl) w2 = (Inr backupInfo, w3)"
    and "translateContent e original (orElse (targetLanguage request) NIHONGO) w3
           = (Inl (newError msg), w4)"
  shows "execute e request w = (Inl (newError msg), w4)"
  using assms
  by (simp add: execute_def tryCatch_def bindIO_def liftResult_def liftCheck_def ret_def
        throw_def newError_def)

text \<open>
  Claim C6. Take a run that reaches the translation stage: the address parses and
  passes both validations, the target is found and read, and the backup is created. If
  the generation service then fails with some cause, \<open>execute\<close> fails with the error
  \<open>TRANSLATION_FAILED: Translation failed:\<close> followed by the text of the cause; in the
  world it leaves behind the backup file holds the content the source had before the
  run, the source still holds it, and nothing was written after the backup.
\<close>

theorem execute_translation_failure:
  assumes "urlParse e (url request) = Inr parsedUrl"
    and "urlValidateVault e (vault parsedUrl) (configuredVault e) = None"
    and "urlValidatePath e (path parsedUrl) = None"
    and "exists_file e (path parsedUrl) w = (Inr True, w1)"
    and "readFile e (path parsedUrl) w1 = (Inr original, w2)"
    and "createBackup e (path parsedUrl) w2 = (Inr backupInfo, w3)"
    and "matterParse e original = Inr (frontmatter, bodyContent)"
    and "trim bodyContent \<noteq> []"
    and "messagesCreate e (length (requests w3))
           (createTranslationPrompt bodyContent (orElse (targetLanguage request) NIHONGO))
         = Inl cause"
  shows "\<exists>w'. execute e request w =
                (Inl (newError (codeString TRANSLATION_FAILED @ ascii '': Translation failed: ''
                                @ render cause)), w')
              \<and> readContent w (getAbsolutePath e (path parsedUrl)) = Some original
              \<and> readContent w' (getAbsolutePath e (backupPath backupInfo)) = Some original
              \<and> readContent w' (getAbsolutePath e (path parsedUrl)) = Some original
              \<and> files w' = files w3 \<and> fslog w' = fslog w3"
proof -
  let ?p = "path parsedUrl"
  let ?w4 = "w3\<lparr>requests := requests w3
                 @ [createTranslationPrompt bodyContent (orElse (targetLanguage request) NIHONGO)]\<rparr>"
  have t: "translateContent e original (orElse (targetLanguage request) NIHONGO) w3 =
             (Inl (newError (codeString TRANSLATION_FAILED @ ascii '': Translation failed: ''
                             @ render cause)), ?w4)"
    by (rule translateContent_call_fails [OF assms(7) assms(8) assms(9)])
  have x: "execute e request w =
             (Inl (newError (codeString TRANSLATION_FAILED @ ascii '': Translation failed: ''
                             @ render cause)), ?w4)"
    by (rule execute_translation_fails [OF assms(1-6) t])
  have w1: "w1 = logged (Access (getAbsolutePath e ?p)) w"
    using assms(4) by (simp add: exists_file_eq)
  from readFile_Inr [OF assms(5)]
  have r1: "readContent w1 (getAbsolutePath e ?p) = Some original"
    by simp
  then have r0: "readContent w (getAbsolutePath e ?p) = Some original"
    by (simp add: w1 logged_def readContent_def lookupFile_def)
  from readFile_Inr [OF assms(5)]
  have r2: "readContent w2 (getAbsolutePath e ?p) = Some original"
    using r1 by (simp add: logged_def readContent_def lookupFile_def)
  from createBackup_Inr [OF assms(6)] obtain c where
    c: "readContent w2 (getAbsolutePath e ?p) = Some c"
    and w3: "w3 = w2\<lparr>files := putFile (getAbsolutePath e (backupPath backupInfo))
                                  (c, clock w2 (Suc (reads w2))) (files w2),
                      fslog := fslog w2 @ [ReadFile (getAbsolutePath e ?p),
                                          WriteFile (getAbsolutePath e (backupPath backupInfo)) c,
                                          Stat (getAbsolutePath e (backupPath backupInfo))],
                      reads := Suc (reads w2)\<rparr>"
    by blast
  from c r2 have co: "c = original" by simp
  have b: "readContent w3 (getAbsolutePath e (backupPath backupInfo)) = Some original"
    by (subst w3) (simp add: readContent_def lookupFile_def lookup_putFile co)
  have s: "readContent w3 (getAbsolutePath e ?p) = Some original"
    using r2 by (subst w3) (simp add: readContent_def lookupFile_def lookup_putFile co)
  have "readContent ?w4 (getAbsolutePath e (backupPath backupInfo)) = Some original"
    and "readContent ?w4 (getAbsolutePath e ?p) = Some original"
    and "files ?w4 = files w3" and "fslog ?w4 = fslog w3"
    using b s by (simp_all add: readContent_def lookupFile_def)
  with x r0 show ?thesis by blast
qed

lemma overloaded_paths:
  "getAbsolutePath overloadedEnv p = getAbsolutePath demoEnv p"
  "path_join overloadedEnv = path_join demoEnv"
  "path_dirname overloadedEnv = path_dirname demoEnv"
  "path_basename overloadedEnv = path_basename demoEnv"
  "path_extname overloadedEnv = path_extname demoEnv"
  "toISOString overloadedEnv = toISOString demoEnv"
  "matterParse overloadedEnv = matterParse demoEnv"
  by (simp_all add: overloadedEnv_def getAbsolutePath_def)

lemma demo_parse_a:
  "urlParse demoEnv (demoUrl ''notes/a.md'')
     = Inr \<lparr>vault = ascii ''Main'', fileParam = ascii ''notes/a.md'', path = ascii ''notes/a.md''\<rparr>"
  by (simp add: demoEnv_def demoParse_def demoUrl_def)

lemma demo_validate_vault:
  "urlValidateVault demoEnv (ascii ''Main'') (configuredVault demoEnv) = None"
  by (simp add: demoEnv_def demoValidateVault_def)

lemma demo_validate_a: "urlValidatePath demoEnv (ascii ''notes/a.md'') = None"
  by (simp add: demoEnv_def demoValidatePath_def includes_str_def DOT_def DOTDOT_def ascii_def)

theorem execute_translation_failure_witness:
  "fst (execute overloadedEnv
          \<lparr>url = demoUrl ''notes/a.md'', targetLanguage = None, mode = None\<rparr> demoWorld)
     = Inl (newError (ascii ''TRANSLATION_FAILED: Translation failed: Error: 529 overloaded''))
   \<and> readContent demoWorld (ascii ''/vault/notes/a.md'') = Some (ascii ''Hello `x`'')
   \<and> readContent
        (snd (execute overloadedEnv
                \<lparr>url = demoUrl ''notes/a.md'', targetLanguage = None, mode = None\<rparr> demoWorld))
        (ascii ''/vault/notes/a.backup-1700.md'') = Some (ascii ''Hello `x`'')
   \<and> readContent
        (snd (execute overloadedEnv
                \<lparr>url = demoUrl ''notes/a.md'', targetLanguage = None, mode = None\<rparr> demoWorld))
        (ascii ''/vault/notes/a.md'') = Some (ascii ''Hello `x`'')"
proof -
  let ?req = "\<lparr>url = demoUrl ''notes/a.md'', targetLanguage = None, mode = None\<rparr>"
  let ?pu = "\<lparr>vault = ascii ''Main'', fileParam = ascii ''notes/a.md'', path = ascii ''notes/a.md''\<rparr>"
  let ?a = "ascii ''/vault/notes/a.md''"
  let ?w1 = "logged (Access ?a) demoWorld"
  let ?w2 = "logged (ReadFile ?a) ?w1"
  let ?info = "\<lparr>originalPath = ascii ''notes/a.md'', backupPath = ascii ''notes/a.backup-1700.md'',
                timestamp = toISOString overloadedEnv (now ?w2),
                backupSize = utf8Length (fst (ascii ''Hello `x`'', 1000::nat))\<rparr>"
  let ?b = "ascii ''/vault/notes/a.backup-1700.md''"
  let ?w3 = "?w2\<lparr>files := putFile (getAbsolutePath overloadedEnv (ascii ''notes/a.backup-1700.md''))
                          (fst (ascii ''Hello `x`'', 1000::nat), clock ?w2 (Suc (reads ?w2))) (files ?w2),
                  fslog := fslog ?w2 @ [ReadFile (getAbsolutePath overloadedEnv (ascii ''notes/a.md'')),
                            WriteFile (getAbsolutePath overloadedEnv (ascii ''notes/a.backup-1700.md''))
                              (fst (ascii ''Hello `x`'', 1000::nat)),
                            Stat (getAbsolutePath overloadedEnv (ascii ''notes/a.backup-1700.md''))],
                  reads := Suc (reads ?w2)\<rparr>"
  have h1: "urlParse overloadedEnv (url ?req) = Inr ?pu"
    using demo_parse_a by (simp add: overloadedEnv_def)
  have h2: "urlValidateVault overloadedEnv (vault ?pu) (configuredVault overloadedEnv) = None"
    using demo_validate_vault by (simp add: overloadedEnv_def)
  have h3: "urlValidatePath overloadedEnv (path ?pu) = None"
    using demo_validate_a by (simp add: overloadedEnv_def)
  have h4: "exists_file overloadedEnv (path ?pu) demoWorld = (Inr True, ?w1)"
    by (simp add: exists_file_eq overloaded_paths demo_abs_a demo_fault demo_lookup_a)
  have l1: "lookupFile ?w1 ?a = Some (ascii ''Hello `x`'', 1000)"
    using demo_lookup_a by (simp add: lookupFile_def logged_def)
  have f1: "fault ?w1 n c = None" for n c
    using demo_fault by (simp add: logged_def)
  have h5: "readFile overloadedEnv (path ?pu) ?w1 = (Inr (ascii ''Hello `x`''), ?w2)"
    by (simp add: readFile_eq overloaded_paths demo_abs_a l1 f1)
  have l2: "lookupFile ?w2 (getAbsolutePath overloadedEnv (ascii ''notes/a.md''))
              = Some (ascii ''Hello `x`'', 1000)"
    using demo_lookup_a by (simp add: lookupFile_def logged_def overloaded_paths demo_abs_a)
  have n2: "now ?w2 = 1700"
    using demo_now by (simp add: now_def logged_def)
  have f2: "fault ?w2 n c = None" for n c
    using demo_fault by (simp add: logged_def)
  have bn: "ascii ''notes/a.backup-1700.md'' =
              path_join overloadedEnv (path_dirname overloadedEnv (ascii ''notes/a.md''))
                (path_basename overloadedEnv (ascii ''notes/a.md'')
                   (path_extname overloadedEnv (ascii ''notes/a.md''))
                 @ ascii ''.backup-'' @ dec (now ?w2) @ path_extname overloadedEnv (ascii ''notes/a.md''))"
    unfolding n2 overloaded_paths by (rule demo_backup_name [symmetric])
  have h6: "createBackup overloadedEnv (path ?pu) ?w2 = (Inr ?info, ?w3)"
    using createBackup_ok [OF l2 f2 bn f2 f2] by simp
  have h7: "matterParse overloadedEnv (ascii ''Hello `x`'') = Inr ([], ascii ''Hello `x`'')"
    using demo_matter_a by (simp add: overloaded_paths)
  have h9: "messagesCreate overloadedEnv (length (requests ?w3))
              (createTranslationPrompt (ascii ''Hello `x`'') (orElse (targetLanguage ?req) NIHONGO))
            = Inl (JsError (ascii ''Error'') (ascii ''529 overloaded''))"
    by (simp add: overloadedEnv_def)
  note inst = execute_translation_failure [OF h1 h2 h3 h4 h5 h6 h7 demo_trim_a h9]
  have msg: "codeString TRANSLATION_FAILED @ ascii '': Translation failed: ''
               @ render (JsError (ascii ''Error'') (ascii ''529 overloaded''))
             = ascii ''TRANSLATION_FAILED: Translation failed: Error: 529 overloaded''"
    by (simp add: ascii_def)
  have pa: "getAbsolutePath overloadedEnv (path ?pu) = ?a"
    by (simp add: overloaded_paths demo_abs_a)
  have pb: "getAbsolutePath overloadedEnv (backupPath ?info) = ?b"
    by (simp add: overloaded_paths demo_abs_backup)
  from inst show ?thesis
    unfolding msg pa pb by auto
qed

section \<open>Sandboxed store: the paths it reaches\<close>

lemma splitSlash_not_Nil [simp]: "splitSlash s \<noteq> []"
  by (induction s) (auto split: list.splits)

lemma dec_digits: "c \<in> set (dec n) \<Longrightarrow> 48 \<le> c \<and> c \<le> 57"
proof (induction n arbitrary: c rule: dec.induct)
  case (1 n)
  show ?case
  proof (cases "n < 10")
    case True
    with "1.prems" show ?thesis by (simp add: dec_small)
  next
    case False
    with "1.prems" have "c \<in> set (dec (n div 10)) \<or> c = 48 + n mod 10"
      by (auto simp: dec_large)
    then show ?thesis
      using "1.IH" [OF False] by (auto simp: le_Suc_eq) 
  qed
qed

lemma readFile_calls:
  "newCalls w (snd (readFile e p w)) = [ReadFile (getAbsolutePath e p)]"
  by (simp add: readFile_eq newCalls_def logged_def)

text \<open>
  Claim C9, evaluated. The store joins the path it is given to the root and checks
  nothing: \<open>../secret.md\<close> joined to the root \<open>/vault\<close> is \<open>/secret.md\<close>,
  which is not under the root, and that is the file \<open>readFile\<close> reads. The path
  reaches the store as it came: \<open>readNote\<close> on \<open>../secret.md\<close> returns the text
  of the file beside the vault. The address validation of the translation pipeline
  refuses the same path.
\<close>

theorem store_reads_outside_root:
  "getAbsolutePath demoEnv (ascii ''../secret.md'') = ascii ''/secret.md''
   \<and> newCalls demoWorld (snd (readFile demoEnv (ascii ''../secret.md'') demoWorld))
       = [ReadFile (ascii ''/secret.md'')]
   \<and> \<not> under (vaultPath demoEnv) (ascii ''/secret.md'')
   \<and> fst (readNote demoEnv (ascii ''../secret.md'') secretWorld) = Inr (ascii ''top secret'', [])
   \<and> newCalls secretWorld (snd (readNote demoEnv (ascii ''../secret.md'') secretWorld))
       = [ReadFile (ascii ''/secret.md'')]
   \<and> urlValidatePath demoEnv (ascii ''../secret.md'') \<noteq> None"
proof -
  have a: "getAbsolutePath demoEnv (ascii ''../secret.md'') = ascii ''/secret.md''"
    by (simp add: getAbsolutePath_def demoEnv_def path_defs ascii_def)
  have u: "\<not> under (vaultPath demoEnv) (ascii ''/secret.md'')"
    by (simp add: under_def components_def demoEnv_def path_defs ascii_def)
  have f: "fault secretWorld n c = None" for n c
    by (simp add: secretWorld_def demoWorld_def)
  have l: "lookupFile secretWorld (ascii ''/secret.md'') = Some (ascii ''top secret'', 1000)"
    by (simp add: lookupFile_def secretWorld_def)
  have m: "matterParse demoEnv (ascii ''top secret'') = Inr ([], ascii ''top secret'')"
    by (simp add: demoEnv_def demoMatterParse_def ascii_def)
  have r: "readFile demoEnv (ascii ''../secret.md'') secretWorld
           = (Inr (ascii ''top secret''), logged (ReadFile (ascii ''/secret.md'')) secretWorld)"
    by (simp add: readFile_eq a f l)
  have n: "readNote demoEnv (ascii ''../secret.md'') secretWorld
           = (Inr (ascii ''top secret'', []), logged (ReadFile (ascii ''/secret.md'')) secretWorld)"
    by (simp add: readNote_def tryCatch_def bindIO_def r m liftResult_def ret_def)
  have v: "urlValidatePath demoEnv (ascii ''../secret.md'') \<noteq> None"
    by (simp add: demoEnv_def demoValidatePath_def includes_str_def DOTDOT_def ascii_def)
  have c: "newCalls demoWorld (snd (readFile demoEnv (ascii ''../secret.md'') demoWorld))
           = [ReadFile (ascii ''/secret.md'')]"
    by (simp add: readFile_calls a)
  have d: "newCalls secretWorld (snd (readNote demoEnv (ascii ''../secret.md'') secretWorld))
           = [ReadFile (ascii ''/secret.md'')]"
    by (simp add: n newCalls_def logged_def)
  from a c u n d v show ?thesis
    by simp
qed

section \<open>Pipeline orchestrator: what a run leaves behind\<close>

lemma extends_refl [simp]: "extends w w"
  by (simp add: extends_def)

lemma extends_trans: "extends w w1 \<Longrightarrow> extends w1 w2 \<Longrightarrow> extends w w2"
  by (auto simp: extends_def)

lemma quiet_ret [simp]: "quiet (ret x)"
  by (simp add: quiet_def ret_def)

lemma quiet_throw [simp]: "quiet (throw t)"
  by (simp add: quiet_def throw_def)

lemma quiet_liftResult [simp]: "quiet (liftResult r)"
  by (simp add: quiet_def liftResult_def)

lemma quiet_liftCheck [simp]: "quiet (liftCheck r)"
  by (simp add: quiet_def liftCheck_def split: option.splits)

lemma quiet_dateNow [simp]: "quiet dateNow"
  by (simp add: quiet_def dateNow_def extends_def failureReports_def)

lemma quiet_fsCall [simp]: "quiet (fsCall c)"
  by (simp add: quiet_def fsCall_def extends_def failureReports_def split: option.splits)

lemma quiet_warn [simp]: "quiet (consoleLog (ConsoleWarn text))"
  by (simp add: quiet_def consoleLog_def extends_def failureReports_def)

lemma quiet_request [simp]: "quiet (anthropicMessagesCreate e prompt)"
  by (simp add: quiet_def anthropicMessagesCreate_def extends_def failureReports_def)

lemma quiet_bindIO:
  assumes "quiet m" and "\<And>x. quiet (f x)"
  shows "quiet (bindIO m f)"
proof -
  have "extends w (snd (bindIO m f w))" for w
  proof (cases "m w")
    case (Pair r w1)
    have e1: "extends w w1"
      using assms(1) Pair by (auto simp: quiet_def dest: spec [of _ w])
    show ?thesis
    proof (cases r)
      case (Inl t)
      then show ?thesis using Pair e1 by (simp add: bindIO_def)
    next
      case (Inr x)
      have "extends w1 (snd (f x w1))"
        using assms(2) [of x] by (simp add: quiet_def)
      then show ?thesis
        using Pair Inr e1 by (auto simp: bindIO_def intro: extends_trans)
    qed
  qed
  then show ?thesis by (simp add: quiet_def)
qed

lemma quiet_tryCatch:
  assumes "quiet m" and "\<And>t. quiet (h t)"
  shows "quiet (tryCatch m h)"
proof -
  have "extends w (snd (tryCatch m h w))" for w
  proof (cases "m w")
    case (Pair r w1)
    have e1: "extends w w1"
      using assms(1) Pair by (auto simp: quiet_def dest: spec [of _ w])
    show ?thesis
    proof (cases r)
      case (Inr x)
      then show ?thesis using Pair e1 by (simp add: tryCatch_def)
    next
      case (Inl t)
      have "extends w1 (snd (h t w1))"
        using assms(2) [of t] by (simp add: quiet_def)
      then show ?thesis
        using Pair Inl e1 by (auto simp: tryCatch_def intro: extends_trans)
    qed
  qed
  then show ?thesis by (simp add: quiet_def)
qed

lemma quiet_fs_access [simp]: "quiet (fs_access p)"
  unfolding fs_access_def
  by (intro quiet_bindIO quiet_fsCall) (simp add: quiet_def split: option.splits)

lemma quiet_fs_readFile [simp]: "quiet (fs_readFile p)"
  unfolding fs_readFile_def
  by (intro quiet_bindIO quiet_fsCall) (simp add: quiet_def split: option.splits)

lemma quiet_fs_writeFile [simp]: "quiet (fs_writeFile p text)"
  unfolding fs_writeFile_def
  by (intro quiet_bindIO quiet_fsCall) (simp add: quiet_def extends_def failureReports_def)

lemma quiet_fs_mkdir [simp]: "quiet (fs_mkdir p)"
  by (simp add: fs_mkdir_def)

lemma quiet_fs_stat [simp]: "quiet (fs_stat p)"
  unfolding fs_stat_def
  by (intro quiet_bindIO quiet_fsCall) (simp add: quiet_def split: option.splits)

lemma quiet_fs_unlink [simp]: "quiet (fs_unlink p)"
  unfolding fs_unlink_def
  by (intro quiet_bindIO quiet_fsCall)
     (simp add: quiet_def extends_def failureReports_def split: option.splits)

lemma quiet_fs_readdir [simp]: "quiet (fs_readdir e d)"
  unfolding fs_readdir_def
  by (intro quiet_bindIO quiet_fsCall) (simp add: quiet_def)

lemma quiet_exists_file [simp]: "quiet (exists_file e p)"
  unfolding exists_file_def
  by (intro quiet_tryCatch quiet_bindIO) simp_all

lemma quiet_readFile [simp]: "quiet (readFile e p)"
  unfolding readFile_def Let_def
  by (intro quiet_tryCatch) simp_all

lemma quiet_writeFile [simp]: "quiet (writeFile e p c)"
  unfolding writeFile_def Let_def
  by (intro quiet_tryCatch quiet_bindIO) simp_all

lemma quiet_createBackup [simp]: "quiet (createBackup e p)"
  unfolding createBackup_def Let_def
  by (intro quiet_tryCatch quiet_bindIO) simp_all

lemma quiet_cleanupLoop [simp]: "quiet (cleanupLoop e dirPath cutoffDate names)"
proof (induction names)
  case Nil
  then show ?case by simp
next
  case (Cons name names)
  have "quiet (bindIO (fs_stat (path_join e dirPath name)) (\<lambda>stats.
          bindIO (if int (snd stats) < cutoffDate then fs_unlink (path_join e dirPath name)
                  else ret ()) (\<lambda>_. cleanupLoop e dirPath cutoffDate names)))"
    using Cons by (intro quiet_bindIO) simp_all
  then show ?case
    using Cons by (simp add: Let_def)
qed

lemma quiet_cleanupOldBackups [simp]: "quiet (cleanupOldBackups e directory)"
  unfolding cleanupOldBackups_def Let_def
  by (intro quiet_tryCatch quiet_bindIO) simp_all

lemma quiet_translateContent [simp]: "quiet (translateContent e content language)"
  unfolding translateContent_def Let_def
  by (intro quiet_tryCatch quiet_bindIO)
     (auto simp: split_def split: list.splits content_block.splits intro!: quiet_bindIO)

lemma quiet_updateFileByMode [simp]: "quiet (updateFileByMode e filePath original translated md)"
  by (simp add: updateFileByMode_def Let_def)

lemma quiet_execute [simp]: "quiet (execute e request)"
  unfolding execute_def
  by (intro quiet_tryCatch quiet_bindIO) (simp_all split: thrown.splits)

lemma quietD: "quiet m \<Longrightarrow> m w = (r, w') \<Longrightarrow> extends w w'"
  by (auto simp: quiet_def dest: spec [of _ w])

lemma tryCatch_Inr:
  "\<lbrakk>tryCatch m h w = (Inr y, w'); \<And>t w1. isl (fst (h t w1))\<rbrakk> \<Longrightarrow> m w = (Inr y, w')"
  by (auto simp: tryCatch_def split: prod.splits sum.splits)
     (metis fst_conv sum.disc(2))

lemma cleanupOldBackups_Inr: "fst (cleanupOldBackups e directory w) = Inr ()"
  by (auto simp: cleanupOldBackups_def tryCatch_def consoleLog_def split: prod.splits sum.splits)

lemma execute_Inr:
  assumes "execute e request w = (Inr r, w')"
  shows "\<exists>parsedUrl w4 w5.
           urlParse e (url request) = Inr parsedUrl
         \<and> updateFileByMode e (path parsedUrl) (originalContent r) (translatedContent r)
              (orElse (mode request) (ascii ''replace'')) w4 = (Inr (), w5)
         \<and> extends w5 w'"
proof -
  have h: "isl (fst ((case error of
                  JsError name msg \<Rightarrow> throw error
                | NonError text \<Rightarrow>
                    throw (newError (codeString TRANSLATION_FAILED
                                     @ ascii '': Unknown error occurred''))) w1))"
    for error :: thrown and w1 :: world
    by (simp add: throw_def split: thrown.splits)
  from assms have body:
    "bindIO (liftResult (urlParse e (url request))) (\<lambda>parsedUrl.
        bindIO (liftCheck (urlValidateVault e (vault parsedUrl) (configuredVault e))) (\<lambda>_.
        bindIO (liftCheck (urlValidatePath e (path parsedUrl))) (\<lambda>_.
        bindIO (exists_file e (path parsedUrl)) (\<lambda>found.
        bindIO (if \<not> found then
                  throw (newError (codeString FILE_NOT_FOUND @ ascii '': File ''
                                   @ quoted (path parsedUrl) @ ascii '' not found''))
                else ret ()) (\<lambda>_.
        bindIO (readFile e (path parsedUrl)) (\<lambda>original.
        bindIO (createBackup e (path parsedUrl)) (\<lambda>backupInfo.
        bindIO (translateContent e original (orElse (targetLanguage request) NIHONGO))
          (\<lambda>translated.
        bindIO (updateFileByMode e (path parsedUrl) original translated
                  (orElse (mode request) (ascii ''replace''))) (\<lambda>_.
        bindIO (cleanupOldBackups e (joinSlash (butlast (splitSlash (path parsedUrl))))) (\<lambda>_.
        ret \<lparr>originalContent = original,
             translatedContent = translated,
             resultBackupPath = backupPath backupInfo,
             resultTimestamp = timestamp backupInfo\<rparr>)))))))))) w = (Inr r, w')"
    unfolding execute_def by (rule tryCatch_Inr) (rule h)
  then have "\<exists>parsedUrl w4 w5.
      urlParse e (url request) = Inr parsedUrl
    \<and> updateFileByMode e (path parsedUrl) (originalContent r) (translatedContent r)
              (orElse (mode request) (ascii ''replace'')) w4 = (Inr (), w5)
    \<and> cleanupOldBackups e (joinSlash (butlast (splitSlash (path parsedUrl)))) w5 = (Inr (), w')"
    by (simp add: bindIO_Inr liftResult_def ret_def) force
  then obtain parsedUrl w4 w5 where
    p: "urlParse e (url request) = Inr parsedUrl"
    and u: "updateFileByMode e (path parsedUrl) (originalContent r) (translatedContent r)
              (orElse (mode request) (ascii ''replace'')) w4 = (Inr (), w5)"
    and c: "cleanupOldBackups e (joinSlash (butlast (splitSlash (path parsedUrl)))) w5 = (Inr (), w')"
    by blast
  from quietD [OF quiet_cleanupOldBackups c] have "extends w5 w'" .
  with p u show ?thesis by blast
qed

lemma execute_replace_writes:
  assumes "execute e request w = (Inr r, w')" and "mode request = Some (ascii ''replace'')"
  shows "\<exists>parsedUrl. urlParse e (url request) = Inr parsedUrl
           \<and> WriteFile (getAbsolutePath e (path parsedUrl)) (translatedContent r) \<in> set (fslog w')"
proof -
  from execute_Inr [OF assms(1)] obtain parsedUrl w4 w5 where
    p: "urlParse e (url request) = Inr parsedUrl"
    and u: "updateFileByMode e (path parsedUrl) (originalContent r) (translatedContent r)
              (orElse (mode request) (ascii ''replace'')) w4 = (Inr (), w5)"
    and x: "extends w5 w'"
    by blast
  have "orElse (mode request) (ascii ''replace'') = ascii ''replace''"
    using assms(2) by (simp add: ascii_def)
  with u have "writeFile e (path parsedUrl) (translatedContent r) w4 = (Inr (), w5)"
    by (simp add: updateFileByMode_def)
  then have "WriteFile (getAbsolutePath e (path parsedUrl)) (translatedContent r) \<in> set (fslog w5)"
    by (auto simp: writeFile_eq logged_def split: option.splits)
  with x have "WriteFile (getAbsolutePath e (path parsedUrl)) (translatedContent r) \<in> set (fslog w')"
    by (auto simp: extends_def dest: set_mono_prefix)
  with p show ?thesis by blast
qed

section \<open>Batch operations\<close>

lemma executeBatchLoop_results:
  "executeBatchLoop e language urls results w =
     (case executeBatchLoop e language urls [] w of (rs, w') \<Rightarrow> (results @ rs, w'))"
proof (induction urls arbitrary: results w)
  case Nil
  then show ?case by simp
next
  case (Cons u urls)
  show ?case
  proof (cases "execute e \<lparr>url = u, targetLanguage = Some language,
                            mode = Some (ascii ''replace'')\<rparr> w")
    case (Pair r w')
    show ?thesis
    proof (cases r)
      case (Inl error)
      then show ?thesis
        using Pair Cons.IH [of results] by simp
    next
      case (Inr result)
      then show ?thesis
        using Pair Cons.IH [of "results @ [result]"] Cons.IH [of "[result]"]
        by (simp split: prod.splits)
    qed
  qed
qed

lemma executeBatch_Nil: "executeBatch e [] language w = ([], w)"
  by (simp add: executeBatch_def)

lemma executeBatch_Cons:
  "executeBatch e (u # urls) language w =
     (case execute e \<lparr>url = u, targetLanguage = Some language,
                       mode = Some (ascii ''replace'')\<rparr> w of
        (Inr result, w') \<Rightarrow>
          (case executeBatch e urls language w' of (rs, w'') \<Rightarrow> (result # rs, w''))
      | (Inl error, w') \<Rightarrow>
          executeBatch e urls language
            (w'\<lparr>console := console w'
                   @ [ConsoleError (ascii ''Failed to translate '' @ u @ ascii '':'') error]\<rparr>))"
  using executeBatchLoop_results [of e language urls "[_]"]
  by (simp add: executeBatch_def split: prod.splits sum.splits)

lemma executeBatch_append:
  "executeBatch e (xs @ ys) language w =
     (case executeBatch e xs language w of
        (rs, w') \<Rightarrow> (case executeBatch e ys language w' of (rs', w'') \<Rightarrow> (rs @ rs', w'')))"
proof (induction xs arbitrary: w)
  case Nil
  then show ?case by (simp add: executeBatch_Nil split: prod.splits)
next
  case (Cons u xs)
  show ?case
    by (simp add: executeBatch_Cons Cons.IH split: prod.splits sum.splits)
qed

lemma execute_extends: "execute e request w = (r, w') \<Longrightarrow> extends w w'"
  by (rule quietD [OF quiet_execute])

lemma executeBatch_count:
  "length (fst (executeBatch e urls language w))
     + length (failureReports (snd (executeBatch e urls language w)))
   = length urls + length (failureReports w)"
proof (induction urls arbitrary: w)
  case Nil
  then show ?case by (simp add: executeBatch_Nil)
next
  case (Cons u urls)
  show ?case
  proof (cases "execute e \<lparr>url = u, targetLanguage = Some language,
                            mode = Some (ascii ''replace'')\<rparr> w")
    case (Pair r w')
    from execute_extends [OF Pair] have f: "failureReports w' = failureReports w"
      by (simp add: extends_def)
    show ?thesis
    proof (cases r)
      case (Inl error)
      let ?w = "w'\<lparr>console := console w'
                   @ [ConsoleError (ascii ''Failed to translate '' @ u @ ascii '':'') error]\<rparr>"
      have "length (failureReports ?w) = Suc (length (failureReports w))"
        using f by (simp add: failureReports_def)
      then show ?thesis
        using Pair Inl Cons.IH [of ?w] by (simp add: executeBatch_Cons)
    next
      case (Inr result)
      then show ?thesis
        using Pair f Cons.IH [of w'] by (auto simp: executeBatch_Cons split: prod.splits)
    qed
  qed
qed

lemma executeBatch_log: "prefix (fslog w) (fslog (snd (executeBatch e urls language w)))"
proof (induction urls arbitrary: w)
  case Nil
  then show ?case by (simp add: executeBatch_Nil)
next
  case (Cons u urls)
  show ?case
  proof (cases "execute e \<lparr>url = u, targetLanguage = Some language,
                            mode = Some (ascii ''replace'')\<rparr> w")
    case (Pair r w')
    from execute_extends [OF Pair] have p: "prefix (fslog w) (fslog w')"
      by (simp add: extends_def)
    show ?thesis
    proof (cases r)
      case (Inl error)
      let ?w = "w'\<lparr>console := console w'
                   @ [ConsoleError (ascii ''Failed to translate '' @ u @ ascii '':'') error]\<rparr>"
      have "prefix (fslog w) (fslog (snd (executeBatch e urls language ?w)))"
        using Cons.IH [of ?w] p by (auto intro: prefix_order.trans)
      then show ?thesis
        using Pair Inl by (simp add: executeBatch_Cons)
    next
      case (Inr result)
      have "prefix (fslog w) (fslog (snd (executeBatch e urls language w')))"
        using Cons.IH [of w'] p by (auto intro: prefix_order.trans)
      then show ?thesis
        using Pair Inr by (auto simp: executeBatch_Cons split: prod.splits)
    qed
  qed
qed

lemma executeBatch_writes:
  assumes "r \<in> set (fst (executeBatch e urls language w))"
  shows "\<exists>u \<in> set urls. \<exists>parsedUrl.
           urlParse e u = Inr parsedUrl
         \<and> WriteFile (getAbsolutePath e (path parsedUrl)) (translatedContent r)
             \<in> set (fslog (snd (executeBatch e urls language w)))"
  using assms
proof (induction urls arbitrary: w)
  case Nil
  then show ?case by (simp add: executeBatch_Nil)
next
  case (Cons u urls)
  let ?req = "\<lparr>url = u, targetLanguage = Some language, mode = Some (ascii ''replace'')\<rparr>"
  show ?case
  proof (cases "execute e ?req w")
    case (Pair x w')
    show ?thesis
    proof (cases x)
      case (Inl error)
      let ?w = "w'\<lparr>console := console w'
                   @ [ConsoleError (ascii ''Failed to translate '' @ u @ ascii '':'') error]\<rparr>"
      have "r \<in> set (fst (executeBatch e urls language ?w))"
        using Cons.prems Pair Inl by (simp add: executeBatch_Cons)
      from Cons.IH [OF this] show ?thesis
        using Pair Inl by (simp add: executeBatch_Cons)
    next
      case (Inr result)
      have e: "executeBatch e (u # urls) language w =
                 (result # fst (executeBatch e urls language w'),
                  snd (executeBatch e urls language w'))"
        using Pair Inr by (simp add: executeBatch_Cons split: prod.splits)
      show ?thesis
      proof (cases "r = result")
        case True
        from execute_replace_writes [of e ?req w result w'] Pair Inr
        obtain parsedUrl where
          p: "urlParse e u = Inr parsedUrl"
          and l: "WriteFile (getAbsolutePath e (path parsedUrl)) (translatedContent result)
                    \<in> set (fslog w')"
          by auto
        from l executeBatch_log [of w' e urls language]
        have "WriteFile (getAbsolutePath e (path parsedUrl)) (translatedContent result)
                \<in> set (fslog (snd (executeBatch e urls language w')))"
          by (auto dest: set_mono_prefix)
        with p True show ?thesis
          unfolding e by auto
      next
        case False
        with Cons.prems have "r \<in> set (fst (executeBatch e urls language w'))"
          unfolding e by simp
        from Cons.IH [OF this] show ?thesis
          unfolding e by auto
      qed
    qed
  qed
qed

lemma logged_fields [simp]:
  "files (logged c w) = files w" "fault (logged c w) = fault w" "clock (logged c w) = clock w"
  "isDirectory (logged c w) = isDirectory w"
  "reads (logged c w) = reads w" "requests (logged c w) = requests w"
  "console (logged c w) = console w" "fslog (logged c w) = fslog w @ [c]"
  by (simp_all add: logged_def)

lemma execute_ok:
  assumes "urlParse e (url request) = Inr parsedUrl"
    and "urlValidateVault e (vault parsedUrl) (configuredVault e) = None"
    and "urlValidatePath e (path parsedUrl) = None"
    and "exists_file e (path parsedUrl) w = (Inr True, w1)"
    and "readFile e (path parsedUrl) w1 = (Inr original, w2)"
    and "createBackup e (path parsedUrl) w2 = (Inr backupInfo, w3)"
    and "translateContent e original (orElse (targetLanguage request) NIHONGO) w3
           = (Inr translated, w4)"
    and "updateFileByMode e (path parsedUrl) original translated
           (orElse (mode request) (ascii ''replace'')) w4 = (Inr (), w5)"
  shows "fst (execute e request w) =
           Inr \<lparr>originalContent = original, translatedContent = translated,
                resultBackupPath = backupPath backupInfo,
                resultTimestamp = timestamp backupInfo\<rparr>"
proof -
  obtain w6 where
    c: "cleanupOldBackups e (joinSlash (butlast (splitSlash (path parsedUrl)))) w5 = (Inr (), w6)"
    using cleanupOldBackups_Inr [of e "joinSlash (butlast (splitSlash (path parsedUrl)))" w5]
    by (cases "cleanupOldBackups e (joinSlash (butlast (splitSlash (path parsedUrl)))) w5") auto
  show ?thesis
    using assms c
    by (simp add: execute_def tryCatch_def bindIO_def liftResult_def liftCheck_def ret_def)
qed

lemma execute_not_found:
  assumes "urlParse e (url request) = Inr parsedUrl"
    and "urlValidateVault e (vault parsedUrl) (configuredVault e) = None"
    and "urlValidatePath e (path parsedUrl) = None"
    and "lookupFile w (getAbsolutePath e (path parsedUrl)) = None"
    and "\<not> isDirectory w (length (fslog w)) (getAbsolutePath e (path parsedUrl))"
  shows "execute e request w =
           (Inl (newError (codeString FILE_NOT_FOUND @ ascii '': File ''
                           @ quoted (path parsedUrl) @ ascii '' not found'')),
            logged (Access (getAbsolutePath e (path parsedUrl))) w)"
  using assms
  by (simp add: execute_def tryCatch_def bindIO_def liftResult_def liftCheck_def ret_def
        throw_def exists_file_eq newError_def)

lemma demo_execute_a:
  assumes "files w = files demoWorld" and "fault w = fault demoWorld"
    and "clock w = clock demoWorld" and "reads w = reads demoWorld"
  shows "fst (execute demoEnv \<lparr>url = demoUrl ''notes/a.md'',
                               targetLanguage = Some (ascii ''French''),
                               mode = Some (ascii ''replace'')\<rparr> w) = Inr demoResult"
proof -
  let ?req = "\<lparr>url = demoUrl ''notes/a.md'', targetLanguage = Some (ascii ''French''),
               mode = Some (ascii ''replace'')\<rparr>"
  let ?pu = "\<lparr>vault = ascii ''Main'', fileParam = ascii ''notes/a.md'', path = ascii ''notes/a.md''\<rparr>"
  let ?a = "ascii ''/vault/notes/a.md''"
  let ?b = "ascii ''/vault/notes/a.backup-1700.md''"
  let ?w1 = "logged (Access ?a) w"
  let ?w2 = "logged (ReadFile ?a) ?w1"
  let ?info = "\<lparr>originalPath = ascii ''notes/a.md'', backupPath = ascii ''notes/a.backup-1700.md'',
                timestamp = toISOString demoEnv (now ?w2),
                backupSize = utf8Length (fst (ascii ''Hello `x`'', 1000::nat))\<rparr>"
  let ?w3 = "?w2\<lparr>files := putFile (getAbsolutePath demoEnv (ascii ''notes/a.backup-1700.md''))
                          (fst (ascii ''Hello `x`'', 1000::nat), clock ?w2 (Suc (reads ?w2))) (files ?w2),
                  fslog := fslog ?w2 @ [ReadFile (getAbsolutePath demoEnv (ascii ''notes/a.md'')),
                            WriteFile (getAbsolutePath demoEnv (ascii ''notes/a.backup-1700.md''))
                              (fst (ascii ''Hello `x`'', 1000::nat)),
                            Stat (getAbsolutePath demoEnv (ascii ''notes/a.backup-1700.md''))],
                  reads := Suc (reads ?w2)\<rparr>"
  let ?t = "ascii ''---'' @ [10] @ ascii ''translated: {date;target_language;model;}'' @ [10]
            @ ascii ''---'' @ [10] @ ascii ''Bonjour''"
  let ?w4 = "?w3\<lparr>requests := requests ?w3
                    @ [createTranslationPrompt (ascii ''Hello `x`'') (ascii ''French'')],
                  reads := Suc (reads ?w3)\<rparr>"
  have flt: "fault w n c = None" for n c
    using assms(2) demo_fault by simp
  have lk: "lookupFile w ?a = Some (ascii ''Hello `x`'', 1000)"
    using demo_lookup_a assms(1) by (simp add: lookupFile_def)
  have nw: "now w = 1700"
    using demo_now assms(3,4) by (simp add: now_def)
  have h1: "urlParse demoEnv (url ?req) = Inr ?pu"
    using demo_parse_a by simp
  have h2: "urlValidateVault demoEnv (vault ?pu) (configuredVault demoEnv) = None"
    using demo_validate_vault by simp
  have h3: "urlValidatePath demoEnv (path ?pu) = None"
    using demo_validate_a by simp
  have h4: "exists_file demoEnv (path ?pu) w = (Inr True, ?w1)"
    by (simp add: exists_file_eq demo_abs_a flt lk)
  have l1: "lookupFile ?w1 ?a = Some (ascii ''Hello `x`'', 1000)"
    using lk by (simp add: lookupFile_def logged_def)
  have f1: "fault ?w1 n c = None" for n c
    using flt by (simp add: logged_def)
  have h5: "readFile demoEnv (path ?pu) ?w1 = (Inr (ascii ''Hello `x`''), ?w2)"
    by (simp add: readFile_eq demo_abs_a l1 flt)
  have l2: "lookupFile ?w2 (getAbsolutePath demoEnv (ascii ''notes/a.md''))
              = Some (ascii ''Hello `x`'', 1000)"
    using lk by (simp add: lookupFile_def logged_def demo_abs_a)
  have n2: "now ?w2 = 1700"
    using nw by (simp add: now_def logged_def)
  have f2: "fault ?w2 n c = None" for n c
    using flt by (simp add: logged_def)
  have bn: "ascii ''notes/a.backup-1700.md'' =
              path_join demoEnv (path_dirname demoEnv (ascii ''notes/a.md''))
                (path_basename demoEnv (ascii ''notes/a.md'')
                   (path_extname demoEnv (ascii ''notes/a.md''))
                 @ ascii ''.backup-'' @ dec (now ?w2) @ path_extname demoEnv (ascii ''notes/a.md''))"
    unfolding n2 by (rule demo_backup_name [symmetric])
  have h6: "createBackup demoEnv (path ?pu) ?w2 = (Inr ?info, ?w3)"
    using createBackup_ok [OF l2 f2 bn f2 f2] by simp
  have m: "messagesCreate demoEnv (length (requests ?w3))
             (createTranslationPrompt (ascii ''Hello `x`'') (ascii ''French''))
           = Inr (TextBlock (ascii ''Bonjour'') # [])"
    by (simp add: demoEnv_def)
  have h7: "translateContent demoEnv (ascii ''Hello `x`'') (orElse (targetLanguage ?req) NIHONGO) ?w3
              = (Inr ?t, ?w4)"
    using translateContent_text [OF demo_matter_a demo_trim_a m demo_stringify]
    by (simp add: ascii_def)
  have f4: "fault ?w4 n c = None" for n c
    using flt by (simp add: logged_def)
  have "\<exists>w5. writeFile demoEnv (ascii ''notes/a.md'') ?t ?w4 = (Inr (), w5)"
    by (simp add: writeFile_eq flt)
  then obtain w5 where
    h8: "updateFileByMode demoEnv (path ?pu) (ascii ''Hello `x`'') ?t
           (orElse (mode ?req) (ascii ''replace'')) ?w4 = (Inr (), w5)"
    by (auto simp: updateFileByMode_def ascii_def)
  have iso: "toISOString demoEnv (now ?w2) = ascii ''1700''"
    unfolding n2 by (simp add: demoEnv_def dec_small dec_large ascii_def)
  from execute_ok [OF h1 h2 h3 h4 h5 h6 h7 h8] show ?thesis
    by (simp add: demoResult_def iso)
qed

lemma settleAll_append:
  "settleAll e language (xs @ ys) w =
     (case settleAll e language xs w of
        (rs, w') \<Rightarrow> (case settleAll e language ys w' of (rs', w'') \<Rightarrow> (rs @ rs', w'')))"
  by (induction xs arbitrary: w) (auto split: prod.splits)

lemma length_settleAll: "length (fst (settleAll e language xs w)) = length xs"
proof (induction xs arbitrary: w)
  case Nil
  then show ?case by simp
next
  case (Cons x xs)
  obtain r w' where t: "translateContent e x language w = (r, w')"
    by (cases "translateContent e x language w")
  obtain rs w'' where s: "settleAll e language xs w' = (rs, w'')"
    by (cases "settleAll e language xs w'")
  show ?case
    using Cons [of w'] t s by simp
qed

lemma pushSettled_eq:
  assumes "length results + length batchResults \<le> length contents"
  shows "pushSettled contents batchResults results =
           results @ map (\<lambda>(c, r). Some (case r of Inl reason \<Rightarrow> c | Inr v \<Rightarrow> v))
                         (zip (drop (length results) contents) batchResults)"
  using assms
proof (induction batchResults arbitrary: results)
  case Nil
  then show ?case by simp
next
  case (Cons b bs)
  then have lt: "length results < length contents"
    by simp
  then have d: "drop (length results) contents
                  = contents ! length results # drop (Suc (length results)) contents"
    by (simp add: Cons_nth_drop_Suc)
  show ?case
  proof (cases b)
    case (Inl reason)
    then show ?thesis
      using Cons.IH [of "results @ [Some (contents ! length results)]"] Cons.prems lt d
      by simp
  next
    case (Inr v)
    then show ?thesis
      using Cons.IH [of "results @ [Some v]"] Cons.prems lt d
      by simp
  qed
qed

lemma translateBatchLoop_eq:
  assumes "length results = min i (length contents)"
  shows "translateBatchLoop e language contents i results w =
           (results @ map (\<lambda>(c, r). Some (case r of Inl reason \<Rightarrow> c | Inr v \<Rightarrow> v))
                          (zip (drop i contents) (fst (settleAll e language (drop i contents) w))),
            snd (settleAll e language (drop i contents) w))"
  using assms
proof (induction e language contents i results w rule: translateBatchLoop.induct)
  case (1 e language contents i results w)
  show ?case
  proof (cases "i < length contents")
    case False
    then show ?thesis
      by (subst translateBatchLoop.simps) simp
  next
    case True
    let ?batch = "take 3 (drop i contents)"
    let ?rest = "drop (i + 3) contents"
    obtain brs w' where s: "settleAll e language ?batch w = (brs, w')"
      by (cases "settleAll e language ?batch w")
    have lb: "length brs = length ?batch"
      using length_settleAll [of e language ?batch w] s by simp
    have split: "drop i contents = ?batch @ ?rest"
      by (metis add.commute append_take_drop_id drop_drop)
    have li: "length results = i"
      using "1.prems" True by simp
    have le: "length results + length brs \<le> length contents"
      using li lb True by simp
    let ?results = "pushSettled contents brs results"
    have pr: "?results = results @ map (\<lambda>(c, r). Some (case r of Inl reason \<Rightarrow> c | Inr v \<Rightarrow> v))
                                     (zip ?batch brs)"
    proof -
      have "zip (drop (length results) contents) brs = zip ?batch brs"
        unfolding li by (subst split) (simp add: zip_append1 lb)
      then show ?thesis
        using pushSettled_eq [OF le] by simp
    qed
    have ln: "length ?results = min (i + 3) (length contents)"
      unfolding pr using li lb True by (auto simp: min_def)
    obtain rs w'' where r: "settleAll e language ?rest w' = (rs, w'')"
      by (cases "settleAll e language ?rest w'")
    have all: "settleAll e language (drop i contents) w = (brs @ rs, w'')"
      using settleAll_append [of e language ?batch ?rest w] s r split by simp
    have "translateBatchLoop e language contents i results w
            = translateBatchLoop e language contents (i + 3) ?results w'"
      using True s by (subst translateBatchLoop.simps) simp
    also have "\<dots> = (?results @ map (\<lambda>(c, r). Some (case r of Inl reason \<Rightarrow> c | Inr v \<Rightarrow> v))
                                   (zip ?rest (fst (settleAll e language ?rest w'))),
                       snd (settleAll e language ?rest w'))"
      using "1.IH" [OF True refl s [symmetric] ln] .
    also have "\<dots> = (results @ map (\<lambda>(c, r). Some (case r of Inl reason \<Rightarrow> c | Inr v \<Rightarrow> v))
                                  (zip (?batch @ ?rest) (brs @ rs)), w'')"
      using r lb by (simp add: pr)
    finally show ?thesis
      using all split by simp
  qed
qed

lemma translateBatch_eq:
  "translateBatch e contents language w =
     (map (\<lambda>(c, r). Some (case r of Inl reason \<Rightarrow> c | Inr v \<Rightarrow> v))
          (zip contents (fst (settleAll e language contents w))),
      snd (settleAll e language contents w))"
  using translateBatchLoop_eq [of "[]" 0 contents e language w]
  by (simp add: translateBatch_def)

lemma executeBatch_single:
  "executeBatch e [u] language w =
     (case execute e \<lparr>url = u, targetLanguage = Some language,
                       mode = Some (ascii ''replace'')\<rparr> w of
        (Inr result, w') \<Rightarrow> ([result], w')
      | (Inl error, w') \<Rightarrow>
          ([], w'\<lparr>console := console w'
                     @ [ConsoleError (ascii ''Failed to translate '' @ u @ ascii '':'') error]\<rparr>))"
  by (simp add: executeBatch_Cons executeBatch_Nil split: prod.splits sum.splits)

text \<open>
  Claim C3, as amended. \<open>executeBatch\<close> goes through the addresses in order and a
  failure stops nothing: running it on a list followed by another is running it on the
  first, then on the second in the world the first left, and the results follow each
  other. One address gives one result, or no result and one failure report on the
  console; so the results and the new failure reports together are as many as the
  addresses, and a failed item is missing from the results. \<open>translateBatch\<close> returns
  one entry for every content, in order: the translation, or the content itself where the
  translation failed.
\<close>

theorem batch_outcomes:
  "executeBatch e (xs @ ys) language w =
     (case executeBatch e xs language w of
        (rs, w') \<Rightarrow> (case executeBatch e ys language w' of (rs', w'') \<Rightarrow> (rs @ rs', w'')))
   \<and> executeBatch e [u] language w =
       (case execute e \<lparr>url = u, targetLanguage = Some language,
                         mode = Some (ascii ''replace'')\<rparr> w of
          (Inr result, w') \<Rightarrow> ([result], w')
        | (Inl error, w') \<Rightarrow>
            ([], w'\<lparr>console := console w'
                       @ [ConsoleError (ascii ''Failed to translate '' @ u @ ascii '':'') error]\<rparr>))
   \<and> length (fst (executeBatch e urls language w))
       + length (failureReports (snd (executeBatch e urls language w)))
       = length urls + length (failureReports w)
   \<and> translateBatch e contents language w =
       (map (\<lambda>(c, r). Some (case r of Inl reason \<Rightarrow> c | Inr v \<Rightarrow> v))
            (zip contents (fst (settleAll e language contents w))),
        snd (settleAll e language contents w))
   \<and> length (fst (translateBatch e contents language w)) = length contents"
proof -
  have "length (fst (translateBatch e contents language w)) = length contents"
    by (simp add: translateBatch_eq length_settleAll)
  then show ?thesis
    using executeBatch_append [of e xs ys language w] executeBatch_single [of e u language w]
      executeBatch_count [of e urls language w] translateBatch_eq [of e contents language w]
    by simp
qed

lemma demo_validate_zz: "urlValidatePath demoEnv (ascii ''notes/zz.md'') = None"
  by (simp add: demoEnv_def demoValidatePath_def includes_str_def DOT_def DOTDOT_def ascii_def)

lemma demo_parse_zz:
  "urlParse demoEnv (demoUrl ''notes/zz.md'')
     = Inr \<lparr>vault = ascii ''Main'', fileParam = ascii ''notes/zz.md'', path = ascii ''notes/zz.md''\<rparr>"
  by (simp add: demoEnv_def demoParse_def demoUrl_def)

lemma demo_lookup_zz: "lookupFile demoWorld (getAbsolutePath demoEnv (ascii ''notes/zz.md'')) = None"
  by (simp add: lookupFile_def demoWorld_def getAbsolutePath_def demoEnv_def path_defs ascii_def)

lemma demo_no_directory_zz:
  "\<not> isDirectory demoWorld n (getAbsolutePath demoEnv (ascii ''notes/zz.md''))"
  by (simp add: demoWorld_def getAbsolutePath_def demoEnv_def path_defs ascii_def)

text \<open>
  Claim C3 as stated fails: of two addresses, the first with a target that does not
  exist, \<open>executeBatch\<close> returns one result, the one of the second address; the failure
  of the first is on the console only.
\<close>

theorem executeBatch_drops_failed_item:
  "fst (executeBatch demoEnv [demoUrl ''notes/zz.md'', demoUrl ''notes/a.md'']
          (ascii ''French'') demoWorld) = [demoResult]
   \<and> failureReports (snd (executeBatch demoEnv [demoUrl ''notes/zz.md'', demoUrl ''notes/a.md'']
                             (ascii ''French'') demoWorld))
       = [ConsoleError (ascii ''Failed to translate '' @ demoUrl ''notes/zz.md'' @ ascii '':'')
            (newError (codeString FILE_NOT_FOUND @ ascii '': File ''
                       @ quoted (ascii ''notes/zz.md'') @ ascii '' not found''))]"
proof -
  let ?reqz = "\<lparr>url = demoUrl ''notes/zz.md'', targetLanguage = Some (ascii ''French''),
                mode = Some (ascii ''replace'')\<rparr>"
  let ?reqa = "\<lparr>url = demoUrl ''notes/a.md'', targetLanguage = Some (ascii ''French''),
                mode = Some (ascii ''replace'')\<rparr>"
  let ?err = "newError (codeString FILE_NOT_FOUND @ ascii '': File ''
                        @ quoted (ascii ''notes/zz.md'') @ ascii '' not found'')"
  let ?w0 = "logged (Access (getAbsolutePath demoEnv (ascii ''notes/zz.md''))) demoWorld"
  let ?w1 = "?w0\<lparr>console := console ?w0
                 @ [ConsoleError (ascii ''Failed to translate '' @ demoUrl ''notes/zz.md'' @ ascii '':'')
                      ?err]\<rparr>"
  have z: "execute demoEnv ?reqz demoWorld = (Inl ?err, ?w0)"
    using execute_not_found [of demoEnv ?reqz _ demoWorld] demo_parse_zz demo_validate_vault
      demo_validate_zz demo_lookup_zz demo_no_directory_zz
    by simp
  have a: "fst (execute demoEnv ?reqa ?w1) = Inr demoResult"
    by (rule demo_execute_a) simp_all
  obtain w2 where a2: "execute demoEnv ?reqa ?w1 = (Inr demoResult, w2)"
    using a by (cases "execute demoEnv ?reqa ?w1") auto
  from execute_extends [OF a2] have "failureReports w2 = failureReports ?w1"
    by (simp add: extends_def)
  moreover have "failureReports ?w1
                   = [ConsoleError (ascii ''Failed to translate '' @ demoUrl ''notes/zz.md'' @ ascii '':'')
                        ?err]"
    by (simp add: failureReports_def demoWorld_def)
  moreover have "executeBatch demoEnv [demoUrl ''notes/zz.md'', demoUrl ''notes/a.md'']
                   (ascii ''French'') demoWorld
                 = executeBatch demoEnv [demoUrl ''notes/a.md''] (ascii ''French'') ?w1"
    by (subst executeBatch_Cons) (simp only: z prod.case sum.case)
  moreover have "executeBatch demoEnv [demoUrl ''notes/a.md''] (ascii ''French'') ?w1
                 = ([demoResult], w2)"
    by (subst executeBatch_single) (simp only: a2 prod.case sum.case)
  ultimately show ?thesis by simp
qed

section \<open>Structural content guard: placeholders\<close>

lemma dec_not_Nil [simp]: "dec n \<noteq> []"
  by (subst dec.simps) simp

lemma dec_inj: "dec a = dec b \<Longrightarrow> a = b"
proof (induction a arbitrary: b rule: dec.induct)
  case (1 a)
  show ?case
  proof (cases "a < 10")
    case True
    show ?thesis
    proof (cases "b < 10")
      case b: True
      with True "1.prems" show ?thesis by (simp add: dec_small)
    next
      case b: False
      with True "1.prems" show ?thesis
        using dec_not_Nil [of "b div 10"] by (simp add: dec_small dec_large)
    qed
  next
    case False
    show ?thesis
    proof (cases "b < 10")
      case b: True
      with False "1.prems" show ?thesis
        using dec_not_Nil [of "a div 10"] by (simp add: dec_small dec_large)
    next
      case b: False
      with False "1.prems" have "dec (a div 10) = dec (b div 10)" and "a mod 10 = b mod 10"
        by (simp_all add: dec_large)
      with "1.IH" [OF False] have "a div 10 = b div 10" and "a mod 10 = b mod 10"
        by simp_all
      then show ?thesis
        by (metis div_mult_mod_eq)
    qed
  qed
qed

lemma ascii_inline: "ascii ''__INLINE_CODE_'' = [95, 95, 73, 78, 76, 73, 78, 69, 95, 67, 79, 68, 69, 95]"
  by (simp add: ascii_def)

lemma ascii_block: "ascii ''__CODE_BLOCK_'' = [95, 95, 67, 79, 68, 69, 95, 66, 76, 79, 67, 75, 95]"
  by (simp add: ascii_def)

lemma ascii_tail: "ascii ''__'' = [95, 95]"
  by (simp add: ascii_def)

lemma inlinePlaceholder_inj: "inlinePlaceholder a = inlinePlaceholder b \<Longrightarrow> a = b"
  by (simp add: inlinePlaceholder_def dec_inj)

lemma blockPlaceholder_inj: "blockPlaceholder a = blockPlaceholder b \<Longrightarrow> a = b"
  by (simp add: blockPlaceholder_def dec_inj)

lemma inline_not_block: "inlinePlaceholder a \<noteq> blockPlaceholder b"
  by (simp add: inlinePlaceholder_def blockPlaceholder_def ascii_inline ascii_block)

lemma keysBelow_fresh:
  assumes "keysBelow n m"
  shows "inlinePlaceholder n \<notin> fst ` set m" and "blockPlaceholder n \<notin> fst ` set m"
proof -
  show "inlinePlaceholder n \<notin> fst ` set m"
  proof
    assume "inlinePlaceholder n \<in> fst ` set m"
    with assms have "inlinePlaceholder n \<in> inlinePlaceholder ` {..<n} \<union> blockPlaceholder ` {..<n}"
      by (auto simp: keysBelow_def)
    then show False
      using inline_not_block [of n] by (auto dest: inlinePlaceholder_inj)
  qed
  show "blockPlaceholder n \<notin> fst ` set m"
  proof
    assume "blockPlaceholder n \<in> fst ` set m"
    with assms have "blockPlaceholder n \<in> inlinePlaceholder ` {..<n} \<union> blockPlaceholder ` {..<n}"
      by (auto simp: keysBelow_def)
    then show False
      using inline_not_block [of _ n] by (auto dest: blockPlaceholder_inj simp: eq_commute)
  qed
qed

lemma naming_fresh: "keysBelow n m \<Longrightarrow> naming k n \<notin> fst ` set m"
  by (cases k) (simp_all add: keysBelow_fresh)

lemma keysBelow_step: "keysBelow n m \<Longrightarrow> keysBelow (Suc n) (m @ [(naming k n, x)])"
  by (cases k) (auto simp: keysBelow_def lessThan_Suc)

lemma mapSet_fresh: "k \<notin> fst ` set m \<Longrightarrow> mapSet k v m = m @ [(k, v)]"
  by (simp add: mapSet_def)

lemma replacers:
  "inlineReplacer = replacerWith inlinePlaceholder"
  "blockReplacer = replacerWith blockPlaceholder"
  by (auto simp: inlineReplacer_def blockReplacer_def replacerWith_def fun_eq_iff)

lemma replacerWith_fresh:
  "keysBelow n m \<Longrightarrow>
     replacerWith (naming k) x (n, m) = (naming k n, (Suc n, m @ [(naming k n, x)]))"
  by (simp add: replacerWith_def mapSet_fresh naming_fresh)

section \<open>Structural content guard: the two patterns\<close>

lemma matchInline_Some:
  assumes "matchInline s = Some x"
  shows "\<exists>code rest. x = BACKTICK # code @ [BACKTICK] \<and> code \<noteq> [] \<and> BACKTICK \<notin> set code
                   \<and> s = x @ rest"
proof -
  from assms obtain r where s: "s = BACKTICK # r"
    by (cases s) (auto simp: matchInline_def split: if_splits)
  let ?code = "takeWhile (\<lambda>c. c \<noteq> BACKTICK) r"
  let ?rest = "dropWhile (\<lambda>c. c \<noteq> BACKTICK) r"
  from assms s have c: "?code \<noteq> []" and r: "?rest \<noteq> []" and x: "x = BACKTICK # ?code @ [BACKTICK]"
    by (auto simp: matchInline_def Let_def split: if_splits)
  from r have h: "hd ?rest = BACKTICK"
    using hd_dropWhile [of "\<lambda>c. c \<noteq> BACKTICK" r] by auto
  have "r = ?code @ ?rest" by simp
  also have "?rest = BACKTICK # tl ?rest"
    using r h by (cases ?rest) auto
  finally have "s = x @ tl ?rest"
    using s x by simp
  moreover have "BACKTICK \<notin> set ?code"
    by (auto dest: set_takeWhileD)
  ultimately show ?thesis
    using c x by blast
qed

lemma lazyClass_Some:
  assumes "lazyClass acc s = Some x"
  shows "\<exists>cls rest. x = acc @ cls @ FENCE \<and> set cls \<subseteq> {BACKSLASH, 115, 83} \<and> s = cls @ FENCE @ rest"
  using assms
proof (induction acc s rule: lazyClass.induct)
  case (1 acc s)
  show ?case
  proof (cases "prefix FENCE s")
    case True
    then obtain rest where "s = FENCE @ rest"
      by (auto simp: prefix_def)
    moreover from True "1.prems" have "x = acc @ FENCE"
      by (simp add: lazyClass.simps)
    ultimately have "x = acc @ [] @ FENCE \<and> set [] \<subseteq> {BACKSLASH, 115, 83} \<and> s = [] @ FENCE @ rest"
      by simp
    then show ?thesis
      by blast
  next
    case False
    with "1.prems" obtain c cs where s: "s = c # cs" and c: "c = BACKSLASH \<or> c = 115 \<or> c = 83"
      and l: "lazyClass (acc @ [c]) cs = Some x"
      by (subst (asm) lazyClass.simps) (auto split: list.splits if_splits)
    from "1.IH" [OF False s c l] obtain cls rest where
      "x = (acc @ [c]) @ cls @ FENCE" "set cls \<subseteq> {BACKSLASH, 115, 83}" "cs = cls @ FENCE @ rest"
      by blast
    with s c have "x = acc @ (c # cls) @ FENCE \<and> set (c # cls) \<subseteq> {BACKSLASH, 115, 83}
        \<and> s = (c # cls) @ FENCE @ rest"
      by auto
    then show ?thesis
      by blast
  qed
qed

lemma matchBlock_Some:
  assumes "matchBlock s = Some x"
  shows "\<exists>cls rest. x = FENCE @ cls @ FENCE \<and> set cls \<subseteq> {BACKSLASH, 115, 83} \<and> s = x @ rest"
proof -
  from assms have p: "prefix FENCE s" and l: "lazyClass FENCE (drop 3 s) = Some x"
    by (auto simp: matchBlock_def split: if_splits)
  from p have s: "s = FENCE @ drop 3 s"
    by (auto simp: prefix_def FENCE_def)
  from lazyClass_Some [OF l] obtain cls rest where
    "x = FENCE @ cls @ FENCE" "set cls \<subseteq> {BACKSLASH, 115, 83}" "drop 3 s = cls @ FENCE @ rest"
    by blast
  with s have "x = FENCE @ cls @ FENCE \<and> set cls \<subseteq> {BACKSLASH, 115, 83} \<and> s = x @ rest"
    by (metis append.assoc)
  then show ?thesis
    by blast
qed

lemma matchInline_prefix: "matchInline s = Some x \<Longrightarrow> x \<noteq> [] \<and> prefix x s"
  by (auto dest: matchInline_Some)

lemma matchBlock_prefix: "matchBlock s = Some x \<Longrightarrow> x \<noteq> [] \<and> prefix x s"
  by (auto dest!: matchBlock_Some simp: FENCE_def)

section \<open>Structural content guard: pieces\<close>

lemma rendered_append [simp]: "rendered (ps @ qs) = rendered ps @ rendered qs"
  by (induction ps rule: rendered.induct) simp_all

lemma unguarded_append [simp]: "unguarded (ps @ qs) = unguarded ps @ unguarded qs"
  by (induction ps rule: unguarded.induct) simp_all

lemma guardsOf_append [simp]: "guardsOf k (ps @ qs) = guardsOf k ps @ guardsOf k qs"
  by (induction k ps rule: guardsOf.induct) simp_all

lemma expand_append [simp]: "expand k (ps @ qs) = expand k ps @ expand k qs"
  by (induction k ps rule: expand.induct) simp_all

lemma settle_append [simp]: "settle k (ps @ qs) = settle k ps @ settle k qs"
  by (induction k ps rule: settle.induct) simp_all

lemma rendered_Plain [simp]: "rendered (map Plain w) = w"
  by (induction w) simp_all

lemma unguarded_Plain [simp]: "unguarded (map Plain w) = w"
  by (induction w) simp_all

lemma guardsOf_Plain [simp]: "guardsOf k (map Plain w) = []"
  by (induction w) simp_all

lemma expand_Plain [simp]: "expand k (map Plain w) = map Plain w"
  by (induction w) simp_all

lemma settle_Plain [simp]: "settle k (map Plain w) = map Plain w"
  by (induction w) simp_all

lemma rendered_settle [simp]: "rendered (settle k ps) = rendered ps"
  by (induction k ps rule: settle.induct) simp_all

lemma unguarded_expand [simp]: "unguarded (expand k ps) = unguarded ps"
  by (induction k ps rule: expand.induct) simp_all

lemma guardsOf_expand: "k \<noteq> k' \<Longrightarrow> guardsOf k (expand k' ps) = guardsOf k ps"
  by (induction k' ps rule: expand.induct) simp_all

lemma guardsOf_settle: "k \<noteq> k' \<Longrightarrow> guardsOf k (settle k' ps) = guardsOf k ps"
  by (induction k' ps rule: settle.induct) simp_all

lemma guardsOf_expand_same [simp]: "guardsOf k (expand k ps) = []"
  by (induction k ps rule: expand.induct) simp_all

lemma Guard_in_expand:
  "Guard k p t \<in> set ps \<Longrightarrow> k \<noteq> k' \<Longrightarrow> Guard k p t \<in> set (expand k' ps)"
  by (induction k' ps rule: expand.induct) auto

lemma Guard_in_settle:
  "Guard k p t \<in> set ps \<Longrightarrow> k \<noteq> k' \<Longrightarrow> Guard k p t \<in> set (settle k' ps)"
  by (induction k' ps rule: settle.induct) auto

lemma guardsOf_Cons:
  assumes "guardsOf k ps = (p, t) # rest"
  shows "\<exists>pre post. ps = pre @ Guard k p t # post \<and> guardsOf k pre = [] \<and> guardsOf k post = rest"
  using assms
proof (induction k ps rule: guardsOf.induct)
  case (1 k)
  then show ?case by simp
next
  case (2 k c ps)
  then obtain pre post where "ps = pre @ Guard k p t # post" "guardsOf k pre = []"
    "guardsOf k post = rest"
    by auto
  then have "Plain c # ps = (Plain c # pre) @ Guard k p t # post \<and> guardsOf k (Plain c # pre) = []
      \<and> guardsOf k post = rest"
    by simp
  then show ?case by blast
next
  case (3 k k' q u ps)
  show ?case
  proof (cases "k' = k")
    case True
    with 3 have "Guard k' q u # ps = [] @ Guard k p t # ps \<and> guardsOf k [] = []
        \<and> guardsOf k ps = rest"
      by simp
    then show ?thesis by blast
  next
    case False
    with 3 obtain pre post where "ps = pre @ Guard k p t # post" "guardsOf k pre = []"
      "guardsOf k post = rest"
      by auto
    with False have "Guard k' q u # ps = (Guard k' q u # pre) @ Guard k p t # post
        \<and> guardsOf k (Guard k' q u # pre) = [] \<and> guardsOf k post = rest"
      by simp
    then show ?thesis by blast
  qed
qed

lemma scanned_match: "scanned m ps \<Longrightarrow> Guard k p t \<in> set ps \<Longrightarrow> \<exists>s. m s = Some t"
  by (induction m ps rule: scanned.induct) auto

section \<open>Structural content guard: one pass\<close>

lemma replaceGlobal_pieces:
  assumes m: "\<And>s x. m s = Some x \<Longrightarrow> x \<noteq> [] \<and> prefix x s"
  shows "keysBelow n M \<Longrightarrow>
    \<exists>ps. replaceGlobal m (replacerWith (naming k)) s (n, M)
           = (rendered ps, (n + length (guardsOf k ps), M @ guardsOf k ps))
        \<and> unguarded ps = s \<and> scanned m ps
        \<and> (\<forall>k' p t. Guard k' p t \<in> set ps \<longrightarrow> k' = k \<and> p \<in> range (naming k))
        \<and> map fst (guardsOf k ps) = map (naming k) [n ..< n + length (guardsOf k ps)]"
proof (induction s arbitrary: n M rule: length_induct)
  case (1 s)
  show ?case
  proof (cases s)
    case Nil
    have "m [] = None"
      using m [of "[]"] by (cases "m []") auto
    with Nil have "replaceGlobal m (replacerWith (naming k)) s (n, M)
           = (rendered [], (n + length (guardsOf k []), M @ guardsOf k []))
        \<and> unguarded [] = s \<and> scanned m []
        \<and> (\<forall>k' p t. Guard k' p t \<in> set [] \<longrightarrow> k' = k \<and> p \<in> range (naming k))
        \<and> map fst (guardsOf k []) = map (naming k) [n ..< n + length (guardsOf k [])]"
      by simp
    then show ?thesis by blast
  next
    case (Cons c cs)
    show ?thesis
    proof (cases "m s")
      case None
      from "1.IH" Cons "1.prems" obtain ps where
        r: "replaceGlobal m (replacerWith (naming k)) cs (n, M)
           = (rendered ps, (n + length (guardsOf k ps), M @ guardsOf k ps))"
        and u: "unguarded ps = cs" and sc: "scanned m ps"
        and g: "\<forall>k' p t. Guard k' p t \<in> set ps \<longrightarrow> k' = k \<and> p \<in> range (naming k)"
        and nm: "map fst (guardsOf k ps) = map (naming k) [n ..< n + length (guardsOf k ps)]"
        by (metis length_Cons lessI)
      let ?ps = "Plain c # ps"
      from None Cons r have "replaceGlobal m (replacerWith (naming k)) s (n, M)
           = (rendered ?ps, (n + length (guardsOf k ?ps), M @ guardsOf k ?ps))"
        by simp
      moreover from u Cons have "unguarded ?ps = s" by simp
      moreover from sc u None Cons have "scanned m ?ps" by simp
      moreover from g have "\<forall>k' p t. Guard k' p t \<in> set ?ps \<longrightarrow> k' = k \<and> p \<in> range (naming k)"
        by auto
      moreover from nm have
        "map fst (guardsOf k ?ps) = map (naming k) [n ..< n + length (guardsOf k ?ps)]"
        by simp
      ultimately show ?thesis by blast
    next
      case (Some x)
      from m [OF Some] obtain rest where x: "x \<noteq> []" and s: "s = x @ rest"
        by (auto simp: prefix_def)
      then have d: "drop (length x) (c # cs) = rest" and l: "length rest < length s"
        using Cons by (simp_all add: length_greater_0_conv)
      let ?M = "M @ [(naming k n, x)]"
      have cb: "replacerWith (naming k) x (n, M) = (naming k n, (Suc n, ?M))"
        by (rule replacerWith_fresh [OF "1.prems"])
      have kb: "keysBelow (Suc n) ?M"
        by (rule keysBelow_step [OF "1.prems"])
      from "1.IH" l kb obtain ps where
        r: "replaceGlobal m (replacerWith (naming k)) rest (Suc n, ?M)
           = (rendered ps, (Suc n + length (guardsOf k ps), ?M @ guardsOf k ps))"
        and u: "unguarded ps = rest" and sc: "scanned m ps"
        and g: "\<forall>k' p t. Guard k' p t \<in> set ps \<longrightarrow> k' = k \<and> p \<in> range (naming k)"
        and nm: "map fst (guardsOf k ps)
                 = map (naming k) [Suc n ..< Suc n + length (guardsOf k ps)]"
        by blast
      let ?ps = "Guard k (naming k n) x # ps"
      from Some Cons x cb d r have "replaceGlobal m (replacerWith (naming k)) s (n, M)
           = (rendered ?ps, (n + length (guardsOf k ?ps), M @ guardsOf k ?ps))"
        by simp
      moreover from u s have "unguarded ?ps = s" by simp
      moreover from sc u Some s have "scanned m ?ps" by simp
      moreover from g have "\<forall>k' p t. Guard k' p t \<in> set ?ps \<longrightarrow> k' = k \<and> p \<in> range (naming k)"
        by auto
      moreover have "[n ..< n + Suc l] = n # [Suc n ..< Suc n + l]" for l
        by (simp add: upt_conv_Cons del: upt_Suc)
      with nm have
        "map fst (guardsOf k ?ps) = map (naming k) [n ..< n + length (guardsOf k ?ps)]"
        by (simp del: upt_Suc)
      ultimately show ?thesis by blast
    qed
  qed
qed

section \<open>Structural content guard: the two passes together\<close>

lemma naming_shape:
  assumes "p \<in> range (naming k)"
  shows "\<exists>p'. p = UNDERSCORE # p'" and "BACKTICK \<notin> set p"
proof -
  from assms obtain n where p: "p = naming k n"
    by auto
  then show "\<exists>p'. p = UNDERSCORE # p'"
    by (cases k) (simp_all add: inlinePlaceholder_def blockPlaceholder_def ascii_inline ascii_block)
  have "c \<noteq> BACKTICK" if "c \<in> set (dec n)" for c
    using dec_digits [OF that] by simp
  with p show "BACKTICK \<notin> set p"
    by (cases k)
      (auto simp: inlinePlaceholder_def blockPlaceholder_def ascii_inline ascii_block ascii_tail)
qed

lemma matchBlock_shape:
  assumes "matchBlock s = Some t"
  shows "\<exists>t'. t = BACKTICK # t'" and "UNDERSCORE \<notin> set t"
proof -
  from matchBlock_Some [OF assms] obtain cls where
    t: "t = FENCE @ cls @ FENCE" and c: "set cls \<subseteq> {BACKSLASH, 115, 83}"
    by blast
  from t show "\<exists>t'. t = BACKTICK # t'"
    by (simp add: FENCE_def)
  from t c show "UNDERSCORE \<notin> set t"
    by (auto simp: FENCE_def)
qed

lemma peel_rendered:
  assumes "\<forall>k p t. Guard k p t \<in> set ps \<longrightarrow> (\<exists>p'. p = a # p')"
    and "a \<notin> set w" and "prefix w (rendered ps)"
  shows "\<exists>ps'. ps = map Plain w @ ps'"
  using assms
proof (induction w arbitrary: ps)
  case Nil
  then show ?case by simp
next
  case (Cons c w)
  show ?case
  proof (cases ps)
    case Nil
    with Cons.prems show ?thesis by simp
  next
    case (Cons x xs)
    show ?thesis
    proof (cases x)
      case (Plain c')
      with Cons Cons.prems have "c' = c" and "prefix w (rendered xs)"
        and "\<forall>k p t. Guard k p t \<in> set xs \<longrightarrow> (\<exists>p'. p = a # p')" and "a \<notin> set w"
        by auto
      with Cons.IH [of xs] obtain ps' where "xs = map Plain w @ ps'"
        by blast
      with Plain Cons \<open>c' = c\<close> have "ps = map Plain (c # w) @ ps'"
        by simp
      then show ?thesis by blast
    next
      case (Guard k p t)
      with Cons have "Guard k p t \<in> set ps"
        by simp
      with Cons.prems(1) obtain p' where "p = a # p'"
        by blast
      with Guard Cons Cons.prems show ?thesis
        by auto
    qed
  qed
qed

lemma peel_unguarded:
  assumes "\<forall>k p t. Guard k p t \<in> set ps \<longrightarrow> (\<exists>t'. t = a # t')"
    and "a \<notin> set w" and "prefix w (unguarded ps)"
  shows "\<exists>ps'. ps = map Plain w @ ps'"
  using assms
proof (induction w arbitrary: ps)
  case Nil
  then show ?case by simp
next
  case (Cons c w)
  show ?case
  proof (cases ps)
    case Nil
    with Cons.prems show ?thesis by simp
  next
    case (Cons x xs)
    show ?thesis
    proof (cases x)
      case (Plain c')
      with Cons Cons.prems have "c' = c" and "prefix w (unguarded xs)"
        and "\<forall>k p t. Guard k p t \<in> set xs \<longrightarrow> (\<exists>t'. t = a # t')" and "a \<notin> set w"
        by auto
      with Cons.IH [of xs] obtain ps' where "xs = map Plain w @ ps'"
        by blast
      with Plain Cons \<open>c' = c\<close> have "ps = map Plain (c # w) @ ps'"
        by simp
      then show ?thesis by blast
    next
      case (Guard k p t)
      with Cons have "Guard k p t \<in> set ps"
        by simp
      with Cons.prems(1) obtain t' where "t = a # t'"
        by blast
      with Guard Cons Cons.prems show ?thesis
        by auto
    qed
  qed
qed

lemma merge_pieces:
  assumes "\<forall>k p t. Guard k p t \<in> set ps \<longrightarrow>
             k = InlineCode \<and> (\<exists>p'. p = UNDERSCORE # p') \<and> BACKTICK \<notin> set p"
    and "\<forall>k p t. Guard k p t \<in> set qs \<longrightarrow>
             k = CodeBlock \<and> (\<exists>t'. t = BACKTICK # t') \<and> UNDERSCORE \<notin> set t"
    and "unguarded qs = rendered ps"
  shows "\<exists>rs. expand CodeBlock rs = ps \<and> settle InlineCode rs = qs"
  using assms
proof (induction ps arbitrary: qs rule: length_induct)
  case (1 ps)
  note P = "1.prems"(1) and Q = "1.prems"(2) and eq = "1.prems"(3)
  from Q have Q': "\<forall>k p t. Guard k p t \<in> set qs \<longrightarrow> (\<exists>t'. t = BACKTICK # t')"
    by blast
  from P have P': "\<forall>k p t. Guard k p t \<in> set ps \<longrightarrow> (\<exists>p'. p = UNDERSCORE # p')"
    by blast
  show ?case
  proof (cases ps)
    case Nil
    with eq have "unguarded qs = []" by simp
    with Q have "qs = []"
      by (cases qs rule: unguarded.cases) auto
    with Nil have "expand CodeBlock [] = ps \<and> settle InlineCode [] = qs"
      by simp
    then show ?thesis by blast
  next
    case (Cons x ps')
    show ?thesis
    proof (cases x)
      case (Guard k p t)
      with Cons have "Guard k p t \<in> set ps"
        by simp
      with P have k: "k = InlineCode" and b: "BACKTICK \<notin> set p"
        by blast+
      from eq Cons Guard have e: "unguarded qs = p @ rendered ps'"
        by simp
      then have "prefix p (unguarded qs)"
        by simp
      from peel_unguarded [OF Q' b this] obtain qs' where qs: "qs = map Plain p @ qs'"
        by blast
      with e have "unguarded qs' = rendered ps'"
        by simp
      moreover from P Cons have "\<forall>k p t. Guard k p t \<in> set ps' \<longrightarrow>
             k = InlineCode \<and> (\<exists>p'. p = UNDERSCORE # p') \<and> BACKTICK \<notin> set p"
        by auto
      moreover from Q qs have "\<forall>k p t. Guard k p t \<in> set qs' \<longrightarrow>
             k = CodeBlock \<and> (\<exists>t'. t = BACKTICK # t') \<and> UNDERSCORE \<notin> set t"
        by auto
      moreover from Cons have "length ps' < length ps"
        by simp
      ultimately obtain rs where "expand CodeBlock rs = ps'" "settle InlineCode rs = qs'"
        using "1.IH" by blast
      with Cons Guard k qs have "expand CodeBlock (Guard InlineCode p t # rs) = ps
          \<and> settle InlineCode (Guard InlineCode p t # rs) = qs"
        by simp
      then show ?thesis by blast
    next
      case (Plain c)
      from eq Cons Plain have e: "unguarded qs = c # rendered ps'"
        by simp
      show ?thesis
      proof (cases qs)
        case Nil
        with e show ?thesis by simp
      next
        case qs: (Cons y qs')
        show ?thesis
        proof (cases y)
          case y: (Plain c')
          with e qs have "c' = c" and "unguarded qs' = rendered ps'"
            by simp_all
          moreover from P Cons have "\<forall>k p t. Guard k p t \<in> set ps' \<longrightarrow>
             k = InlineCode \<and> (\<exists>p'. p = UNDERSCORE # p') \<and> BACKTICK \<notin> set p"
            by auto
          moreover from Q qs have "\<forall>k p t. Guard k p t \<in> set qs' \<longrightarrow>
             k = CodeBlock \<and> (\<exists>t'. t = BACKTICK # t') \<and> UNDERSCORE \<notin> set t"
            by auto
          moreover from Cons have "length ps' < length ps"
            by simp
          ultimately obtain rs where "expand CodeBlock rs = ps'" "settle InlineCode rs = qs'"
            using "1.IH" by blast
          with Cons Plain qs y \<open>c' = c\<close> have "expand CodeBlock (Plain c # rs) = ps
              \<and> settle InlineCode (Plain c # rs) = qs"
            by simp
          then show ?thesis by blast
        next
          case y: (Guard k q t)
          with qs have "Guard k q t \<in> set qs"
            by simp
          with Q obtain t' where k: "k = CodeBlock" and t: "t = BACKTICK # t'"
            and u: "UNDERSCORE \<notin> set t"
            by blast
          from eq qs y have e': "rendered ps = t @ unguarded qs'"
            by simp
          then have "prefix t (rendered ps)"
            by simp
          from peel_rendered [OF P' u this] obtain ps'' where ps: "ps = map Plain t @ ps''"
            by blast
          with e' have "unguarded qs' = rendered ps''"
            by simp
          moreover from P ps have "\<forall>k p t. Guard k p t \<in> set ps'' \<longrightarrow>
             k = InlineCode \<and> (\<exists>p'. p = UNDERSCORE # p') \<and> BACKTICK \<notin> set p"
            by auto
          moreover from Q qs have "\<forall>k p t. Guard k p t \<in> set qs' \<longrightarrow>
             k = CodeBlock \<and> (\<exists>t'. t = BACKTICK # t') \<and> UNDERSCORE \<notin> set t"
            by auto
          moreover from ps t have "length ps'' < length ps"
            by simp
          ultimately obtain rs where "expand CodeBlock rs = ps''" "settle InlineCode rs = qs'"
            using "1.IH" by blast
          with ps qs y k have "expand CodeBlock (Guard CodeBlock q t # rs) = ps
              \<and> settle InlineCode (Guard CodeBlock q t # rs) = qs"
            by simp
          then show ?thesis by blast
        qed
      qed
    qed
  qed
qed

lemma keysBelow_numbered: "map fst m = map (naming k) [0 ..< n] \<Longrightarrow> keysBelow n m"
proof -
  assume "map fst m = map (naming k) [0 ..< n]"
  then have "set (map fst m) = set (map (naming k) [0 ..< n])"
    by simp
  then have "fst ` set m = naming k ` {..<n}"
    by (simp add: lessThan_atLeast0)
  then show ?thesis
    by (cases k) (simp_all add: keysBelow_def)
qed

lemma protectCodeBlocks_pieces:
  "\<exists>rs. protectCodeBlocks body = (rendered rs, guardsOf InlineCode rs @ guardsOf CodeBlock rs)
     \<and> unguarded rs = body
     \<and> scanned matchInline (expand CodeBlock rs)
     \<and> scanned matchBlock (settle InlineCode rs)
     \<and> (\<forall>k p t. Guard k p t \<in> set rs \<longrightarrow> p \<in> range (naming k))
     \<and> map fst (guardsOf InlineCode rs)
         = map inlinePlaceholder [0 ..< length (guardsOf InlineCode rs)]
     \<and> map fst (guardsOf CodeBlock rs)
         = map blockPlaceholder [length (guardsOf InlineCode rs) ..<
                                 length (guardsOf InlineCode rs) + length (guardsOf CodeBlock rs)]"
proof -
  have "keysBelow 0 []"
    by (simp add: keysBelow_def)
  from replaceGlobal_pieces [of matchInline 0 "[]" InlineCode body, OF matchInline_prefix this]
  obtain ps where
    r1: "replaceGlobal matchInline inlineReplacer body (0, [])
           = (rendered ps, (length (guardsOf InlineCode ps), guardsOf InlineCode ps))"
    and u1: "unguarded ps = body" and s1: "scanned matchInline ps"
    and g1: "\<forall>k' p t. Guard k' p t \<in> set ps \<longrightarrow> k' = InlineCode \<and> p \<in> range (naming InlineCode)"
    and n1: "map fst (guardsOf InlineCode ps)
             = map inlinePlaceholder [0 ..< length (guardsOf InlineCode ps)]"
    by (auto simp: replacers)
  let ?n = "length (guardsOf InlineCode ps)"
  from n1 have "keysBelow ?n (guardsOf InlineCode ps)"
    by (intro keysBelow_numbered [of _ InlineCode]) simp
  from replaceGlobal_pieces [of matchBlock ?n "guardsOf InlineCode ps" CodeBlock "rendered ps",
      OF matchBlock_prefix this]
  obtain qs where
    r2: "replaceGlobal matchBlock blockReplacer (rendered ps) (?n, guardsOf InlineCode ps)
           = (rendered qs, (?n + length (guardsOf CodeBlock qs),
                            guardsOf InlineCode ps @ guardsOf CodeBlock qs))"
    and u2: "unguarded qs = rendered ps" and s2: "scanned matchBlock qs"
    and g2: "\<forall>k' p t. Guard k' p t \<in> set qs \<longrightarrow> k' = CodeBlock \<and> p \<in> range (naming CodeBlock)"
    and n2: "map fst (guardsOf CodeBlock qs)
             = map blockPlaceholder [?n ..< ?n + length (guardsOf CodeBlock qs)]"
    by (auto simp: replacers)
  have P: "\<forall>k p t. Guard k p t \<in> set ps \<longrightarrow>
             k = InlineCode \<and> (\<exists>p'. p = UNDERSCORE # p') \<and> BACKTICK \<notin> set p"
    using g1 naming_shape by blast
  have Q: "\<forall>k p t. Guard k p t \<in> set qs \<longrightarrow>
             k = CodeBlock \<and> (\<exists>t'. t = BACKTICK # t') \<and> UNDERSCORE \<notin> set t"
  proof (intro allI impI)
    fix k p t
    assume a: "Guard k p t \<in> set qs"
    from scanned_match [OF s2 a] obtain s where "matchBlock s = Some t"
      by blast
    with matchBlock_shape [of s t] g2 a
    show "k = CodeBlock \<and> (\<exists>t'. t = BACKTICK # t') \<and> UNDERSCORE \<notin> set t"
      by blast
  qed
  from merge_pieces [OF P Q u2] obtain rs where
    e: "expand CodeBlock rs = ps" and s: "settle InlineCode rs = qs"
    by blast
  have gi: "guardsOf InlineCode rs = guardsOf InlineCode ps"
    using guardsOf_expand [of InlineCode CodeBlock rs] e by simp
  have gb: "guardsOf CodeBlock rs = guardsOf CodeBlock qs"
    using guardsOf_settle [of CodeBlock InlineCode rs] s by simp
  have rr: "rendered rs = rendered qs"
    using rendered_settle [of InlineCode rs] s by simp
  have uu: "unguarded rs = body"
    using unguarded_expand [of CodeBlock rs] e u1 by simp
  have "protectCodeBlocks body = (rendered rs, guardsOf InlineCode rs @ guardsOf CodeBlock rs)"
    by (simp add: protectCodeBlocks_def r1 r2 gi gb rr)
  moreover have "\<forall>k p t. Guard k p t \<in> set rs \<longrightarrow> p \<in> range (naming k)"
  proof (intro allI impI)
    fix k p t
    assume a: "Guard k p t \<in> set rs"
    show "p \<in> range (naming k)"
    proof (cases k)
      case InlineCode
      with a Guard_in_expand [of k p t rs CodeBlock] e have "Guard k p t \<in> set ps"
        by simp
      with g1 InlineCode show ?thesis by blast
    next
      case CodeBlock
      with a Guard_in_settle [of k p t rs InlineCode] s have "Guard k p t \<in> set qs"
        by simp
      with g2 CodeBlock show ?thesis by blast
    qed
  qed
  ultimately show ?thesis
    using uu s1 s2 e s n1 n2 gi gb by (intro exI [of _ rs]) simp
qed

section \<open>Structural content guard: finding a placeholder again\<close>

lemma getSubstitution_plain:
  "\<not> holdsPattern r \<Longrightarrow> getSubstitution m pre post r = r"
  by (induction m pre post r rule: getSubstitution.induct) auto

lemma replaceString_at:
  assumes "indexOf p (u @ p @ v) = Some (length u)" and "\<not> holdsPattern t"
  shows "replaceString p t (u @ p @ v) = u @ t @ v"
  using assms by (simp add: replaceString_def getSubstitution_plain)

lemma naming_opener: "naming k n = opener k @ dec n @ [UNDERSCORE, UNDERSCORE]"
  by (cases k) (simp_all add: inlinePlaceholder_def blockPlaceholder_def ascii_tail)

lemma naming_start:
  "\<exists>x r. naming k n = UNDERSCORE # UNDERSCORE # x # r \<and> x \<noteq> UNDERSCORE \<and> x \<noteq> BACKTICK"
  by (cases k)
    (simp_all add: inlinePlaceholder_def blockPlaceholder_def ascii_inline ascii_block)

lemma unclosed_naming: "unclosed (naming k n) = opener k @ dec n"
  by (simp add: naming_opener unclosed_def butlast_append)

lemma lone_plain:
  "UNDERSCORE \<notin> set xs \<Longrightarrow> successively (\<lambda>a b. \<not> (a = UNDERSCORE \<and> b = UNDERSCORE)) xs"
  by (induction xs rule: induct_list012) auto

lemma opener_lone:
  assumes "UNDERSCORE \<notin> set ds" and "ds \<noteq> []"
  shows "successively (\<lambda>a b. \<not> (a = UNDERSCORE \<and> b = UNDERSCORE))
           ((tl (opener k) @ ds) @ [UNDERSCORE])"
proof -
  have "successively (\<lambda>a b. \<not> (a = UNDERSCORE \<and> b = UNDERSCORE)) (tl (opener k))"
    by (cases k) (simp_all add: ascii_inline ascii_block)
  moreover have "tl (opener k) \<noteq> []"
    by (cases k) (simp_all add: ascii_inline ascii_block)
  moreover from assms have "hd ds \<noteq> UNDERSCORE" and "last ds \<noteq> UNDERSCORE"
    by (metis hd_in_set, metis last_in_set)
  ultimately show ?thesis
    using assms lone_plain [OF assms(1)] by (simp add: successively_append_iff)
qed

lemma opener_Cons: "opener k = UNDERSCORE # tl (opener k)"
  by (cases k) (simp_all add: ascii_inline ascii_block)

lemma indexOf_here: "prefix p s \<Longrightarrow> indexOf p s = Some 0"
  by (cases s) auto

lemma indexOf_skip:
  assumes "\<And>a b. q = a @ b \<Longrightarrow> b \<noteq> [] \<Longrightarrow> \<not> prefix p (b @ s)"
  shows "indexOf p (q @ s) = map_option (\<lambda>i. length q + i) (indexOf p s)"
  using assms
proof (induction q)
  case Nil
  then show ?case by (simp add: option.map_ident)
next
  case (Cons c q)
  from Cons.prems [of "[]" "c # q"] have n: "\<not> prefix p (c # q @ s)"
    by simp
  have "\<not> prefix p (b @ s)" if "q = a @ b" "b \<noteq> []" for a b
    using Cons.prems [of "c # a" b] that by simp
  from Cons.IH [OF this] n show ?case
    by (simp add: option.map_comp o_def)
qed

lemma includes_str_middle: "includes_str (u @ pat @ v) pat"
proof (induction u)
  case Nil
  have "prefix pat (pat @ v)"
    by simp
  then show ?case
    by (simp add: includes_str_def indexOf_here)
next
  case (Cons c u)
  then show ?case
    by (auto simp: includes_str_def)
qed

lemma includes_str_suffix: "includes_str s pat \<Longrightarrow> includes_str (u @ s) pat"
proof (induction u)
  case Nil
  then show ?case by simp
next
  case (Cons c u)
  then show ?case
    by (auto simp: includes_str_def)
qed

lemma digits_prefix:
  assumes "UNDERSCORE \<notin> set d" and "UNDERSCORE \<notin> set d'"
    and "prefix (d @ UNDERSCORE # u) (d' @ UNDERSCORE # v)"
  shows "d = d'"
  using assms
proof (induction d arbitrary: d')
  case Nil
  then show ?case by (cases d') auto
next
  case (Cons c d)
  then show ?case by (cases d') auto
qed

lemma dec_no_underscore: "UNDERSCORE \<notin> set (dec n)"
  using dec_digits [of UNDERSCORE n] by auto

lemma naming_comparable:
  assumes "prefix (naming k n) (naming k' n' @ s)"
  shows "naming k n = naming k' n'"
proof -
  from assms have k: "k = k'"
    by (cases k; cases k')
      (simp_all add: inlinePlaceholder_def blockPlaceholder_def ascii_inline ascii_block)
  from assms have "prefix (dec n @ UNDERSCORE # [UNDERSCORE]) (dec n' @ UNDERSCORE # UNDERSCORE # s)"
    unfolding k
    by (cases k')
      (simp_all add: inlinePlaceholder_def blockPlaceholder_def ascii_inline ascii_block ascii_tail)
  from digits_prefix [OF dec_no_underscore dec_no_underscore this] k show ?thesis
    by (cases k') (simp_all add: inlinePlaceholder_def blockPlaceholder_def)
qed

lemma head_suffix:
  assumes "h = a @ us" and "a \<noteq> []" and "us \<noteq> []" and "d \<noteq> UNDERSCORE"
    and "h = [95, 95, 73, 78, 76, 73, 78, 69, 95, 67, 79, 68, 69, 95]
         \<or> h = [95, 95, 67, 79, 68, 69, 95, 66, 76, 79, 67, 75, 95]"
  shows "hd (us @ d # r) \<noteq> UNDERSCORE \<or> (\<exists>y b'. us @ d # r = UNDERSCORE # y # b' \<and> y \<noteq> UNDERSCORE)"
  using assms by (auto simp: append_eq_Cons_conv)

lemma placeholder_suffix:
  assumes "naming k n = a @ b" and "a \<noteq> []" and "b \<noteq> []"
  shows "hd b \<noteq> UNDERSCORE \<or> (\<exists>y b'. b = UNDERSCORE # y # b' \<and> y \<noteq> UNDERSCORE)
         \<or> b = [UNDERSCORE, UNDERSCORE] \<or> b = [UNDERSCORE]"
proof -
  obtain h where nm: "naming k n = h @ dec n @ [95, 95]"
    and h: "h = [95, 95, 73, 78, 76, 73, 78, 69, 95, 67, 79, 68, 69, 95]
            \<or> h = [95, 95, 67, 79, 68, 69, 95, 66, 76, 79, 67, 75, 95]"
    by (cases k)
      (simp_all add: inlinePlaceholder_def blockPlaceholder_def ascii_inline ascii_block ascii_tail)
  obtain d ds where d: "dec n = d # ds"
    using dec_not_Nil [of n] by (cases "dec n") auto
  then have d95: "d \<noteq> UNDERSCORE"
    using dec_no_underscore [of n] by auto
  from nm assms(1) have "h @ (dec n @ [95, 95]) = a @ b"
    by simp
  then consider us where "h = a @ us" "us @ dec n @ [95, 95] = b"
    | us where "h @ us = a" "dec n @ [95, 95] = us @ b"
    by (auto simp: append_eq_append_conv2)
  then show ?thesis
  proof cases
    case 1
    show ?thesis
    proof (cases "us = []")
      case True
      with 1 d d95 show ?thesis by auto
    next
      case False
      from head_suffix [OF 1(1) assms(2) False d95 h, of "ds @ [95, 95]"] 1(2) d
      show ?thesis by simp
    qed
  next
    case 2
    from 2(2) consider vs where "dec n = us @ vs" "vs @ [95, 95] = b"
      | vs where "dec n @ vs = us" "[95, 95] = vs @ b"
      by (auto simp: append_eq_append_conv2)
    then show ?thesis
    proof cases
      case 1
      show ?thesis
      proof (cases vs)
        case Nil
        with 1 show ?thesis by simp
      next
        case (Cons v vs')
        with 1 have "v \<in> set (dec n)" and "hd b = v"
          by auto
        with dec_no_underscore [of n] show ?thesis
          by auto
      qed
    next
      case 2
      with assms(3) show ?thesis
        by (auto simp: Cons_eq_append_conv)
    qed
  qed
qed

lemma proper_heads:
  assumes "list_all proper ps"
  shows "\<forall>k p t. Guard k p t \<in> set ps \<longrightarrow> (\<exists>p'. p = UNDERSCORE # UNDERSCORE # p')"
proof (intro allI impI)
  fix k p t
  assume "Guard k p t \<in> set ps"
  with assms have "proper (Guard k p t)"
    unfolding list_all_iff by blast
  then obtain n where "p = naming k n"
    by auto
  with naming_start [of k n] show "\<exists>p'. p = UNDERSCORE # UNDERSCORE # p'"
    by auto
qed

lemma peel_lone:
  assumes "\<forall>k p t. Guard k p t \<in> set ps \<longrightarrow> (\<exists>p'. p = UNDERSCORE # UNDERSCORE # p')"
    and "prefix (w @ [z]) (rendered ps)"
    and "successively (\<lambda>a b. \<not> (a = UNDERSCORE \<and> b = UNDERSCORE)) (w @ [z])"
  shows "\<exists>ps'. ps = map Plain w @ ps'"
  using assms
proof (induction w arbitrary: ps)
  case Nil
  then show ?case by simp
next
  case (Cons c w)
  show ?case
  proof (cases ps)
    case Nil
    with Cons.prems show ?thesis by simp
  next
    case ps: (Cons x xs)
    show ?thesis
    proof (cases x)
      case (Plain c')
      with ps Cons.prems have "c' = c" and "prefix (w @ [z]) (rendered xs)"
        and "\<forall>k p t. Guard k p t \<in> set xs \<longrightarrow> (\<exists>p'. p = UNDERSCORE # UNDERSCORE # p')"
        and "successively (\<lambda>a b. \<not> (a = UNDERSCORE \<and> b = UNDERSCORE)) (w @ [z])"
        by (auto simp: successively_Cons)
      with Cons.IH [of xs] obtain ps' where "xs = map Plain w @ ps'"
        by blast
      with Plain ps \<open>c' = c\<close> have "ps = map Plain (c # w) @ ps'"
        by simp
      then show ?thesis by blast
    next
      case (Guard k p t)
      with ps have "Guard k p t \<in> set ps"
        by simp
      with Cons.prems(1) obtain p' where p: "p = UNDERSCORE # UNDERSCORE # p'"
        by blast
      obtain y r where wz: "w @ [z] = y # r"
        by (cases "w @ [z]") auto
      from Cons.prems(2) ps Guard p wz have "c = UNDERSCORE" and "y = UNDERSCORE"
        by auto
      with Cons.prems(3) wz show ?thesis
        by simp
    qed
  qed
qed

lemma placeholder_at_plain:
  assumes "list_all proper (Plain c # ps)" and "prefix (naming k n) (rendered (Plain c # ps))"
  shows "\<exists>ps'. Plain c # ps = map Plain (opener k @ dec n) @ ps'"
proof -
  have nm: "naming k n = UNDERSCORE # ((tl (opener k) @ dec n) @ [UNDERSCORE]) @ [UNDERSCORE]"
    using naming_opener [of k n] opener_Cons [of k] by simp
  from assms(2) have c: "c = UNDERSCORE"
    and "prefix (((tl (opener k) @ dec n) @ [UNDERSCORE]) @ [UNDERSCORE]) (rendered ps)"
    unfolding nm by simp_all
  from this(2) have pf: "prefix ((tl (opener k) @ dec n) @ [UNDERSCORE]) (rendered ps)"
    by (rule append_prefixD)
  from assms(1) have "list_all proper ps"
    by simp
  from peel_lone [OF proper_heads [OF this] pf opener_lone [OF dec_no_underscore dec_not_Nil]]
  obtain ps' where "ps = map Plain (tl (opener k) @ dec n) @ ps'"
    by blast
  with c have "Plain c # ps = map Plain ((UNDERSCORE # tl (opener k)) @ dec n) @ ps'"
    by simp
  then show ?thesis
    using opener_Cons [of k] by metis
qed

lemma rendered_after_block:
  assumes "list_all proper ps" and "closes (unguarded ps)" and "BACKTICK \<in> set (unguarded ps)"
  shows "(\<exists>r. rendered ps = BACKTICK # r) \<or> (\<exists>r. rendered ps = UNDERSCORE # UNDERSCORE # r)"
proof (cases ps)
  case Nil
  with assms(3) show ?thesis by simp
next
  case (Cons x xs)
  show ?thesis
  proof (cases x)
    case (Plain c)
    with Cons assms(2,3) have "c = BACKTICK"
      by (auto simp: closes_def)
    with Cons Plain show ?thesis by simp
  next
    case (Guard k p t)
    with Cons have "Guard k p t \<in> set ps"
      by simp
    with proper_heads [OF assms(1)] obtain p' where "p = UNDERSCORE # UNDERSCORE # p'"
      by blast
    with Cons Guard show ?thesis by simp
  qed
qed

lemma placeholder_no_overlap:
  assumes "list_all proper ps" and "closes (unguarded ps)" and "BACKTICK \<in> set (unguarded ps)"
    and "naming k' n' = a @ b" and "b \<noteq> []" and "naming k n \<noteq> naming k' n'"
  shows "\<not> prefix (naming k n) (b @ rendered ps)"
proof
  assume pf: "prefix (naming k n) (b @ rendered ps)"
  obtain x r where nm: "naming k n = UNDERSCORE # UNDERSCORE # x # r"
    and x: "x \<noteq> UNDERSCORE" "x \<noteq> BACKTICK"
    using naming_start [of k n] by blast
  note st = rendered_after_block [OF assms(1-3)]
  show False
  proof (cases "a = []")
    case True
    with assms(4) pf have "naming k n = naming k' n'"
      by (intro naming_comparable [of k n k' n' "rendered ps"]) simp
    with assms(6) show False by simp
  next
    case False
    from placeholder_suffix [OF assms(4) False assms(5)]
    consider "hd b \<noteq> UNDERSCORE" | y' b' where "b = UNDERSCORE # y' # b'" "y' \<noteq> UNDERSCORE"
      | "b = [UNDERSCORE, UNDERSCORE]" | "b = [UNDERSCORE]"
      by blast
    then show False
    proof cases
      case 1
      with assms(5) pf nm show False
        by (cases b) auto
    next
      case 2
      with pf nm show False by simp
    next
      case 3
      with pf nm have "prefix (x # r) (rendered ps)"
        by simp
      with st x show False
        by auto
    next
      case 4
      with pf nm have "prefix (UNDERSCORE # x # r) (rendered ps)"
        by simp
      with st x show False
        by auto
    qed
  qed
qed

section \<open>Structural content guard: restoring\<close>

lemma indexOf_first_guard:
  assumes "list_all proper (pre @ Guard k (naming k n) t # post)"
    and "afterBlocks (pre @ Guard k (naming k n) t # post)"
    and "\<not> includes_str (unguarded (pre @ Guard k (naming k n) t # post)) (opener k @ dec n)"
    and "guardsOf InlineCode pre = []" and "guardsOf k pre = []"
  shows "indexOf (naming k n) (rendered pre @ naming k n @ rendered post)
         = Some (length (rendered pre))"
  using assms
proof (induction pre)
  case Nil
  then show ?case by (simp add: indexOf_here)
next
  case (Cons x pre)
  let ?rest = "pre @ Guard k (naming k n) t # post"
  have r: "rendered ?rest = rendered pre @ naming k n @ rendered post"
    by simp
  show ?case
  proof (cases x)
    case (Plain c)
    have np: "\<not> prefix (naming k n) (rendered (Plain c # ?rest))"
    proof
      assume "prefix (naming k n) (rendered (Plain c # ?rest))"
      with Cons.prems(1) Plain obtain ps' where
        "Plain c # ?rest = map Plain (opener k @ dec n) @ ps'"
        using placeholder_at_plain [of c ?rest k n] by auto
      then have "unguarded (Plain c # ?rest) = [] @ (opener k @ dec n) @ unguarded ps'"
        by (metis append_Nil unguarded_Plain unguarded_append)
      then have "includes_str (unguarded (Plain c # ?rest)) (opener k @ dec n)"
        using includes_str_middle [of "[]" "opener k @ dec n" "unguarded ps'"] by simp
      with Cons.prems(3) Plain show False
        by simp
    qed
    have "\<not> includes_str (unguarded ?rest) (opener k @ dec n)"
      using Cons.prems(3) Plain
        includes_str_suffix [of "unguarded ?rest" "opener k @ dec n" "[c]"]
      by auto
    with Cons.IH Cons.prems Plain
    have "indexOf (naming k n) (rendered pre @ naming k n @ rendered post)
          = Some (length (rendered pre))"
      by simp
    with np Plain show ?thesis
      by simp
  next
    case (Guard k' q u)
    with Cons.prems(4,5) have k': "k' = CodeBlock" and k: "k = InlineCode"
      by (cases k'; cases k; simp)+
    from Cons.prems(1) Guard obtain n' where q: "q = naming k' n'"
      and pr: "list_all proper ?rest" and tx: "prefix [BACKTICK] t"
      by auto
    from k k' have ne: "naming k n \<noteq> naming k' n'"
      using inline_not_block [of n n'] by simp
    from Cons.prems(2) Guard k' have cl: "closes (unguarded ?rest)" and ab: "afterBlocks ?rest"
      by simp_all
    from tx have bt: "BACKTICK \<in> set (unguarded ?rest)"
      by (auto simp: prefix_def)
    have "\<not> prefix (naming k n) (b @ rendered ?rest)" if "q = a @ b" "b \<noteq> []" for a b
      using placeholder_no_overlap [OF pr cl bt _ that(2) ne] that(1) q by simp
    from indexOf_skip [of q "naming k n" "rendered ?rest", OF this]
    have sk: "indexOf (naming k n) (q @ rendered ?rest)
              = map_option (\<lambda>i. length q + i) (indexOf (naming k n) (rendered ?rest))"
      by simp
    have "\<not> includes_str (unguarded ?rest) (opener k @ dec n)"
      using Cons.prems(3) Guard includes_str_suffix [of "unguarded ?rest" "opener k @ dec n" u]
      by auto
    with Cons.IH [OF pr ab] Cons.prems(4,5) Guard
    have "indexOf (naming k n) (rendered pre @ naming k n @ rendered post)
          = Some (length (rendered pre))"
      by (simp split: if_splits)
    with sk show ?thesis
      unfolding r Guard by simp
  qed
qed

lemma restore_first_guard:
  assumes "restorable (pre @ Guard k p t # post)"
    and "guardsOf InlineCode pre = []" and "guardsOf k pre = []"
  shows "replaceString p t (rendered (pre @ Guard k p t # post))
         = rendered (pre @ map Plain t @ post)"
proof -
  from assms(1) obtain n where p: "p = naming k n" and d: "\<not> holdsPattern t"
    by (auto simp: restorable_def)
  from assms(1) have "\<not> includes_str (unguarded (pre @ Guard k p t # post)) (unclosed p)"
    by (simp add: restorable_def)
  then have i: "\<not> includes_str (unguarded (pre @ Guard k p t # post)) (opener k @ dec n)"
    by (simp add: p unclosed_naming)
  from assms(1) have "list_all proper (pre @ Guard k p t # post)"
    and "afterBlocks (pre @ Guard k p t # post)"
    by (simp_all add: restorable_def)
  from indexOf_first_guard [OF this [unfolded p] i [unfolded p] assms(2,3)] d show ?thesis
    unfolding p by (simp add: replaceString_at)
qed

lemma proper_Plain [simp]: "list_all proper (map Plain w)"
  by (induction w) simp_all

lemma afterBlocks_Plain [simp]: "afterBlocks (map Plain w @ ps) = afterBlocks ps"
  by (induction w) simp_all

lemma afterBlocks_expand1:
  "afterBlocks (pre @ Guard k p t # post) \<Longrightarrow> afterBlocks (pre @ map Plain t @ post)"
proof (induction pre)
  case Nil
  then show ?case by simp
next
  case (Cons x pre)
  then show ?case by (cases x) simp_all
qed

lemma restorable_expand1:
  "restorable (pre @ Guard k p t # post) \<Longrightarrow> restorable (pre @ map Plain t @ post)"
  using afterBlocks_expand1 [of pre k p t post]
  by (auto simp: restorable_def split: piece.splits)

lemma proper_expand: "list_all proper ps \<Longrightarrow> list_all proper (expand k ps)"
  by (induction k ps rule: expand.induct) auto

lemma afterBlocks_expand: "afterBlocks ps \<Longrightarrow> afterBlocks (expand k ps)"
  by (induction k ps rule: expand.induct) auto

lemma expand_guards: "Guard k' p t \<in> set (expand k ps) \<Longrightarrow> Guard k' p t \<in> set ps"
  by (induction k ps rule: expand.induct) (auto split: if_splits)

lemma restorable_expand:
  assumes "restorable ps"
  shows "restorable (expand k ps)"
proof -
  have "\<not> includes_str (unguarded ps) (unclosed p)" if "Guard k' p t \<in> set (expand k ps)"
    for k' p t
    using assms expand_guards [OF that] by (auto simp: restorable_def)
  then have "\<forall>x \<in> set (expand k ps). case x of
             Plain c \<Rightarrow> True
           | Guard k' p t \<Rightarrow> \<not> includes_str (unguarded (expand k ps)) (unclosed p)"
    by (auto split: piece.splits)
  with assms show ?thesis
    by (simp add: restorable_def proper_expand afterBlocks_expand)
qed

lemma expand_none: "guardsOf k ps = [] \<Longrightarrow> expand k ps = ps"
  by (induction k ps rule: expand.induct) (auto split: if_splits)

lemma rendered_expand_both:
  "rendered (expand CodeBlock (expand InlineCode ps)) = unguarded ps"
proof (induction ps)
  case Nil
  then show ?case by simp
next
  case (Cons x ps)
  then show ?case
  proof (cases x)
    case (Plain c)
    with Cons show ?thesis by simp
  next
    case (Guard k p t)
    with Cons show ?thesis by (cases k) simp_all
  qed
qed

lemma Guard_in_guardsOf: "Guard k p t \<in> set ps \<Longrightarrow> (p, t) \<in> set (guardsOf k ps)"
  by (induction k ps rule: guardsOf.induct) auto

lemma restore_kind:
  assumes "restorable ps" and "k = CodeBlock \<Longrightarrow> guardsOf InlineCode ps = []"
  shows "foldl (\<lambda>s (p, t). replaceString p t s) (rendered ps) (guardsOf k ps)
         = rendered (expand k ps)"
  using assms
proof (induction "guardsOf k ps" arbitrary: ps)
  case Nil
  then show ?case by (simp add: expand_none)
next
  case (Cons e rest)
  obtain p t where e: "e = (p, t)"
    by (cases e)
  from Cons.hyps(2) e have "guardsOf k ps = (p, t) # rest"
    by simp
  from guardsOf_Cons [OF this] obtain pre post where
    ps: "ps = pre @ Guard k p t # post" and g: "guardsOf k pre = []"
    and r: "rest = guardsOf k post"
    by blast
  have gi: "guardsOf InlineCode pre = []"
  proof (cases k)
    case InlineCode
    with g show ?thesis by simp
  next
    case CodeBlock
    with Cons.prems(2) ps show ?thesis by simp
  qed
  let ?ps = "pre @ map Plain t @ post"
  from Cons.prems(1) ps have rs: "restorable ?ps"
    by (simp add: restorable_expand1)
  have ci: "guardsOf InlineCode ?ps = []" if "k = CodeBlock"
    using Cons.prems(2) [OF that] ps that by simp
  from g r have "rest = guardsOf k ?ps"
    by simp
  from Cons.hyps(1) [OF this rs ci] g
  have "foldl (\<lambda>s (p, t). replaceString p t s) (rendered ?ps) (guardsOf k post)
        = rendered (expand k ?ps)"
    by simp
  moreover from Cons.prems(1) ps g gi
  have "replaceString p t (rendered ps) = rendered ?ps"
    using restore_first_guard [of pre k p t post] by simp
  ultimately show ?case
    unfolding ps by (simp add: g)
qed

lemma restoreCodeBlocks_pieces:
  assumes "restorable ps"
  shows "restoreCodeBlocks (rendered ps) (guardsOf InlineCode ps @ guardsOf CodeBlock ps)
         = unguarded ps"
proof -
  have "guardsOf CodeBlock (expand InlineCode ps) = guardsOf CodeBlock ps"
    by (simp add: guardsOf_expand)
  with restore_kind [OF restorable_expand [OF assms], of CodeBlock InlineCode]
  have "foldl (\<lambda>s (p, t). replaceString p t s) (rendered (expand InlineCode ps))
          (guardsOf CodeBlock ps) = unguarded ps"
    by (simp add: rendered_expand_both)
  with restore_kind [OF assms, of InlineCode] show ?thesis
    by (simp add: restoreCodeBlocks_def)
qed

section \<open>Structural content guard: restoring what was protected\<close>

lemma scanned_Plain_append: "scanned m (map Plain w @ ps) \<Longrightarrow> scanned m ps"
  by (induction w) simp_all

lemma scanned_last_plain:
  "scanned m (map Plain (w @ [c]) @ ps) \<Longrightarrow> m (c # unguarded ps) = None"
  by (induction w) simp_all

lemma matchInline_closes:
  assumes "matchInline (BACKTICK # r) = None"
  shows "closes r"
proof (cases r)
  case Nil
  then show ?thesis by (simp add: closes_def)
next
  case (Cons c cs)
  show ?thesis
  proof (cases "c = BACKTICK")
    case True
    with Cons show ?thesis by (simp add: closes_def)
  next
    case False
    with assms Cons have "dropWhile (\<lambda>x. x \<noteq> BACKTICK) cs = []"
      by (simp add: matchInline_def Let_def split: if_splits)
    then have "BACKTICK \<notin> set cs"
      by (auto simp: dropWhile_eq_Nil_conv)
    with False Cons show ?thesis
      by (simp add: closes_def)
  qed
qed

lemma afterBlocks_scanned:
  assumes "scanned matchInline (expand CodeBlock ps)"
    and "\<forall>p t. Guard CodeBlock p t \<in> set ps \<longrightarrow> (\<exists>t0. t = t0 @ [BACKTICK])"
  shows "afterBlocks ps"
  using assms
proof (induction ps)
  case Nil
  then show ?case by simp
next
  case (Cons x ps)
  show ?case
  proof (cases x)
    case (Plain c)
    with Cons show ?thesis by simp
  next
    case (Guard k p t)
    show ?thesis
    proof (cases k)
      case InlineCode
      with Guard Cons show ?thesis by simp
    next
      case CodeBlock
      with Guard Cons.prems(2) obtain t0 where t: "t = t0 @ [BACKTICK]"
        by auto
      from Cons.prems(1) Guard CodeBlock
      have s: "scanned matchInline (map Plain (t0 @ [BACKTICK]) @ expand CodeBlock ps)"
        by (simp add: t)
      from scanned_last_plain [OF s] have "matchInline (BACKTICK # unguarded ps) = None"
        by simp
      then have "closes (unguarded ps)"
        by (rule matchInline_closes)
      moreover from scanned_Plain_append [OF s] Cons.IH Cons.prems(2) have "afterBlocks ps"
        by simp
      ultimately show ?thesis
        using Guard by simp
    qed
  qed
qed

text \<open>
  Claim C4, as amended. Take a body that holds the placeholder of none of its own
  protected regions, not even without the two closing underscores (for a body with one
  inline span that is the text \<open>__INLINE_CODE_0\<close>), and in which no protected region
  holds a dollar sign followed by a dollar sign, an ampersand, a backtick or an
  apostrophe. Whatever code regions it has, restoring right after protecting gives the
  body back.
\<close>

theorem restore_after_protect:
  assumes "\<forall>e \<in> set (snd (protectCodeBlocks body)).
             \<not> includes_str body (unclosed (fst e)) \<and> \<not> holdsPattern (snd e)"
  shows "restoreCodeBlocks (fst (protectCodeBlocks body)) (snd (protectCodeBlocks body)) = body"
proof -
  from protectCodeBlocks_pieces [of body] obtain rs where
    p: "protectCodeBlocks body = (rendered rs, guardsOf InlineCode rs @ guardsOf CodeBlock rs)"
    and u: "unguarded rs = body"
    and si: "scanned matchInline (expand CodeBlock rs)"
    and sb: "scanned matchBlock (settle InlineCode rs)"
    and g: "\<forall>k p t. Guard k p t \<in> set rs \<longrightarrow> p \<in> range (naming k)"
    by blast
  have e: "\<not> includes_str body (unclosed q) \<and> \<not> holdsPattern t"
    if "Guard k q t \<in> set rs" for k q t
  proof -
    from that Guard_in_guardsOf [of k q t rs]
    have "(q, t) \<in> set (snd (protectCodeBlocks body))"
      unfolding p by (cases k) auto
    with assms show ?thesis
      by fastforce
  qed
  have "proper x" if "x \<in> set rs" for x
  proof (cases x)
    case (Plain c)
    then show ?thesis by simp
  next
    case (Guard k q t)
    from e that Guard have "\<not> holdsPattern t"
      by blast
    moreover from g that Guard have "q \<in> range (naming k)"
      by blast
    moreover have "prefix [BACKTICK] t"
    proof (cases k)
      case InlineCode
      with that Guard have "Guard k q t \<in> set (expand CodeBlock rs)"
        by (intro Guard_in_expand) simp_all
      from scanned_match [OF si this] obtain s where "matchInline s = Some t"
        by blast
      from matchInline_Some [OF this] show ?thesis
        by auto
    next
      case CodeBlock
      with that Guard have "Guard k q t \<in> set (settle InlineCode rs)"
        by (intro Guard_in_settle) simp_all
      from scanned_match [OF sb this] obtain s where "matchBlock s = Some t"
        by blast
      from matchBlock_shape(1) [OF this] show ?thesis
        by auto
    qed
    ultimately show ?thesis
      using Guard by simp
  qed
  then have pr: "list_all proper rs"
    by (simp add: list_all_iff)
  have "\<exists>t0. t = t0 @ [BACKTICK]" if "Guard CodeBlock q t \<in> set rs" for q t
  proof -
    from that have "Guard CodeBlock q t \<in> set (settle InlineCode rs)"
      by (intro Guard_in_settle) simp_all
    from scanned_match [OF sb this] obtain s where "matchBlock s = Some t"
      by blast
    from matchBlock_Some [OF this] obtain cls where "t = FENCE @ cls @ FENCE"
      by blast
    then have "t = (FENCE @ cls @ [BACKTICK, BACKTICK]) @ [BACKTICK]"
      by (simp add: FENCE_def)
    then show ?thesis
      by blast
  qed
  with si have ab: "afterBlocks rs"
    by (intro afterBlocks_scanned) blast+
  have "\<forall>x \<in> set rs. case x of
             Plain c \<Rightarrow> True
           | Guard k q t \<Rightarrow> \<not> includes_str (unguarded rs) (unclosed q)"
    using e u by (auto split: piece.splits)
  with pr ab have "restorable rs"
    by (simp add: restorable_def)
  from restoreCodeBlocks_pieces [OF this] p u show ?thesis
    by simp
qed

theorem restore_after_protect_witness:
  "restoreCodeBlocks
     (fst (protectCodeBlocks (ascii ''use __init__ and `my_var` for $5 `$HOME` ``````'')))
     (snd (protectCodeBlocks (ascii ''use __init__ and `my_var` for $5 `$HOME` ``````'')))
   = ascii ''use __init__ and `my_var` for $5 `$HOME` ``````''"
proof -
  have "\<forall>e \<in> set (snd (protectCodeBlocks
                          (ascii ''use __init__ and `my_var` for $5 `$HOME` ``````''))).
           \<not> includes_str (ascii ''use __init__ and `my_var` for $5 `$HOME` ``````'')
                (unclosed (fst e))
         \<and> \<not> holdsPattern (snd e)"
    by code_simp
  from restore_after_protect [OF this] show ?thesis .
qed

text \<open>
  Claim C4 as stated fails. The replacement text of \<open>String.prototype.replace\<close> is a
  template, so that the inline span \<open>`$$`\<close> comes back as \<open>`$`\<close>. A body that
  already holds the text of a placeholder has that text replaced instead of the
  placeholder, and so has a body that holds the unclosed placeholder just before the
  span that receives it.
\<close>

theorem restore_after_protect_differs:
  "restoreCodeBlocks (fst (protectCodeBlocks (ascii ''`$$`'')))
     (snd (protectCodeBlocks (ascii ''`$$`''))) = ascii ''`$`''
   \<and> ascii ''`$`'' \<noteq> ascii ''`$$`''
   \<and> restoreCodeBlocks (fst (protectCodeBlocks (ascii ''__INLINE_CODE_0__ `x`'')))
       (snd (protectCodeBlocks (ascii ''__INLINE_CODE_0__ `x`''))) = ascii ''`x` __INLINE_CODE_0__''
   \<and> ascii ''`x` __INLINE_CODE_0__'' \<noteq> ascii ''__INLINE_CODE_0__ `x`''
   \<and> restoreCodeBlocks (fst (protectCodeBlocks (ascii ''__INLINE_CODE_0`x`'')))
       (snd (protectCodeBlocks (ascii ''__INLINE_CODE_0`x`''))) = ascii ''`x`INLINE_CODE_0__''
   \<and> ascii ''`x`INLINE_CODE_0__'' \<noteq> ascii ''__INLINE_CODE_0`x`''"
proof -
  have "restoreCodeBlocks (fst (protectCodeBlocks (ascii ''`$$`'')))
     (snd (protectCodeBlocks (ascii ''`$$`''))) = ascii ''`$`''"
    by code_simp
  moreover have "ascii ''`$`'' \<noteq> ascii ''`$$`''"
    by (simp add: ascii_def)
  moreover have "restoreCodeBlocks (fst (protectCodeBlocks (ascii ''__INLINE_CODE_0__ `x`'')))
       (snd (protectCodeBlocks (ascii ''__INLINE_CODE_0__ `x`''))) = ascii ''`x` __INLINE_CODE_0__''"
    by code_simp
  moreover have "ascii ''`x` __INLINE_CODE_0__'' \<noteq> ascii ''__INLINE_CODE_0__ `x`''"
    by (simp add: ascii_def)
  moreover have "restoreCodeBlocks (fst (protectCodeBlocks (ascii ''__INLINE_CODE_0`x`'')))
       (snd (protectCodeBlocks (ascii ''__INLINE_CODE_0`x`''))) = ascii ''`x`INLINE_CODE_0__''"
    by code_simp
  moreover have "ascii ''`x`INLINE_CODE_0__'' \<noteq> ascii ''__INLINE_CODE_0`x`''"
    by (simp add: ascii_def)
  ultimately show ?thesis
    by blast
qed

section \<open>Structural content guard: what protecting does to a fenced block\<close>

text \<open>
  Claim C5, evaluated. \<open>protectCodeBlocks\<close> runs the inline pattern first and the
  block pattern second, and the class of the block pattern is written with escaped
  backslashes, so that it matches no fence with ordinary text inside. In a fenced block
  of three lines whose middle line holds an inline span, the first scan pairs the last
  backtick of the opening fence with the first backtick of the span, and the last
  backtick of the span with the first one of the closing fence: two inline guards, no
  block guard, and the code of the span left in place between them. With two fenced
  blocks and a line of prose between them the prose is guarded as well.
\<close>

theorem protectCodeBlocks_splits_fenced_block:
  "protectCodeBlocks (FENCE @ [10] @ ascii ''x = `b`;'' @ [10] @ FENCE)
   = (ascii ''``'' @ inlinePlaceholder 0 @ ascii ''b'' @ inlinePlaceholder 1 @ ascii ''``'',
      [(inlinePlaceholder 0, ascii ''`'' @ [10] @ ascii ''x = `''),
       (inlinePlaceholder 1, ascii ''`;'' @ [10] @ ascii ''`'')])
   \<and> protectCodeBlocks (FENCE @ [10] @ ascii ''x = `b`;'' @ [10] @ FENCE)
     \<noteq> (blockPlaceholder 0,
         [(blockPlaceholder 0, FENCE @ [10] @ ascii ''x = `b`;'' @ [10] @ FENCE)])
   \<and> matchBlock (FENCE @ [10] @ ascii ''x = 1'' @ [10] @ FENCE) = None
   \<and> protectCodeBlocks (FENCE @ [10] @ ascii ''a'' @ [10] @ FENCE @ [10] @ ascii ''prose''
                          @ [10] @ FENCE @ [10] @ ascii ''b'' @ [10] @ FENCE)
     = (ascii ''``'' @ inlinePlaceholder 0 @ ascii ''`'' @ inlinePlaceholder 1 @ ascii ''`''
        @ inlinePlaceholder 2 @ ascii ''``'',
        [(inlinePlaceholder 0, ascii ''`'' @ [10] @ ascii ''a'' @ [10] @ ascii ''`''),
         (inlinePlaceholder 1, ascii ''`'' @ [10] @ ascii ''prose'' @ [10] @ ascii ''`''),
         (inlinePlaceholder 2, ascii ''`'' @ [10] @ ascii ''b'' @ [10] @ ascii ''`'')])"
proof -
  have e: "protectCodeBlocks (FENCE @ [10] @ ascii ''x = `b`;'' @ [10] @ FENCE)
   = (ascii ''``'' @ inlinePlaceholder 0 @ ascii ''b'' @ inlinePlaceholder 1 @ ascii ''``'',
      [(inlinePlaceholder 0, ascii ''`'' @ [10] @ ascii ''x = `''),
       (inlinePlaceholder 1, ascii ''`;'' @ [10] @ ascii ''`'')])"
    by code_simp
  have m: "matchBlock (FENCE @ [10] @ ascii ''x = 1'' @ [10] @ FENCE) = None"
    by code_simp
  have f: "protectCodeBlocks (FENCE @ [10] @ ascii ''a'' @ [10] @ FENCE @ [10] @ ascii ''prose''
                          @ [10] @ FENCE @ [10] @ ascii ''b'' @ [10] @ FENCE)
     = (ascii ''``'' @ inlinePlaceholder 0 @ ascii ''`'' @ inlinePlaceholder 1 @ ascii ''`''
        @ inlinePlaceholder 2 @ ascii ''``'',
        [(inlinePlaceholder 0, ascii ''`'' @ [10] @ ascii ''a'' @ [10] @ ascii ''`''),
         (inlinePlaceholder 1, ascii ''`'' @ [10] @ ascii ''prose'' @ [10] @ ascii ''`''),
         (inlinePlaceholder 2, ascii ''`'' @ [10] @ ascii ''b'' @ [10] @ ascii ''`'')])"
    by code_simp
  show ?thesis
    unfolding e f m by simp
qed

section \<open>Pipeline orchestrator: what a run in the replace mode writes\<close>

lemma newCalls_append:
  "prefix (fslog w) (fslog w1) \<Longrightarrow> prefix (fslog w1) (fslog w2) \<Longrightarrow>
     newCalls w w2 = newCalls w w1 @ newCalls w1 w2"
  by (auto simp: prefix_def newCalls_def)

lemma tidied_refl [simp]: "tidied P w w"
  by (simp add: tidied_def newCalls_def)

lemma tidied_trans:
  assumes "tidied P w w1" and "tidied P w1 w2"
  shows "tidied P w w2"
proof -
  from assms have p: "prefix (fslog w) (fslog w1)" "prefix (fslog w1) (fslog w2)"
    by (simp_all add: tidied_def)
  note n = newCalls_append [OF p]
  from p have "prefix (fslog w) (fslog w2)"
    by (rule prefix_order.trans)
  moreover from assms have "\<forall>c \<in> set (newCalls w w2). P c"
    by (auto simp: n tidied_def)
  moreover have "readContent w2 q = readContent w q \<or> Unlink q \<in> set (newCalls w w2)" for q
  proof -
    from assms have "readContent w1 q = readContent w q \<or> Unlink q \<in> set (newCalls w w1)"
      and "readContent w2 q = readContent w1 q \<or> Unlink q \<in> set (newCalls w1 w2)"
      by (simp_all add: tidied_def)
    then show ?thesis
      by (auto simp: n)
  qed
  ultimately show ?thesis
    by (simp add: tidied_def)
qed

lemma tidy_ret [simp]: "tidy P (ret x)"
  by (simp add: tidy_def ret_def)

lemma tidy_throw [simp]: "tidy P (throw t)"
  by (simp add: tidy_def throw_def)

lemma tidy_dateNow [simp]: "tidy P dateNow"
  by (simp add: tidy_def dateNow_def tidied_def newCalls_def readContent_def lookupFile_def)

lemma tidy_warn [simp]: "tidy P (consoleLog entry)"
  by (simp add: tidy_def consoleLog_def tidied_def newCalls_def readContent_def lookupFile_def)

lemma tidy_fsCall: "P c \<Longrightarrow> tidy P (fsCall c)"
  by (simp add: tidy_def fsCall_def tidied_def newCalls_def readContent_def lookupFile_def
      split: option.splits)

lemma tidy_bindIO:
  assumes "tidy P m" and "\<And>x. tidy P (f x)"
  shows "tidy P (bindIO m f)"
proof -
  have "tidied P w (snd (bindIO m f w))" for w
  proof (cases "m w")
    case (Pair r w1)
    have e1: "tidied P w w1"
      using assms(1) Pair by (auto simp: tidy_def dest: spec [of _ w])
    show ?thesis
    proof (cases r)
      case (Inl t)
      then show ?thesis using Pair e1 by (simp add: bindIO_def)
    next
      case (Inr x)
      have "tidied P w1 (snd (f x w1))"
        using assms(2) [of x] by (simp add: tidy_def)
      then show ?thesis
        using Pair Inr e1 by (auto simp: bindIO_def intro: tidied_trans)
    qed
  qed
  then show ?thesis by (simp add: tidy_def)
qed

lemma tidy_tryCatch:
  assumes "tidy P m" and "\<And>t. tidy P (h t)"
  shows "tidy P (tryCatch m h)"
proof -
  have "tidied P w (snd (tryCatch m h w))" for w
  proof (cases "m w")
    case (Pair r w1)
    have e1: "tidied P w w1"
      using assms(1) Pair by (auto simp: tidy_def dest: spec [of _ w])
    show ?thesis
    proof (cases r)
      case (Inr x)
      then show ?thesis using Pair e1 by (simp add: tryCatch_def)
    next
      case (Inl t)
      have "tidied P w1 (snd (h t w1))"
        using assms(2) [of t] by (simp add: tidy_def)
      then show ?thesis
        using Pair Inl e1 by (auto simp: tryCatch_def intro: tidied_trans)
    qed
  qed
  then show ?thesis by (simp add: tidy_def)
qed

lemma tidy_fs_stat: "P (Stat p) \<Longrightarrow> tidy P (fs_stat p)"
  unfolding fs_stat_def
  by (intro tidy_bindIO tidy_fsCall) (simp_all add: tidy_def split: option.splits)

lemma lookup_removeFile: "map_of (removeFile p fs) q = (if q = p then None else map_of fs q)"
  by (induction fs) (auto simp: removeFile_def)

lemma tidy_fs_unlink:
  assumes "P (Unlink p)"
  shows "tidy P (fs_unlink p)"
proof -
  have "tidied P w (snd (fs_unlink p w))" for w
    using assms
    by (auto simp: fs_unlink_def bindIO_def fsCall_def tidied_def newCalls_def readContent_def
          lookupFile_def lookup_removeFile
        split: option.splits)
  then show ?thesis by (simp add: tidy_def)
qed

lemma tidy_cleanupLoop:
  assumes "\<And>p. P (Stat p)" and "\<And>p. 0 < cutoffDate \<Longrightarrow> P (Unlink p)"
  shows "tidy P (cleanupLoop e dirPath cutoffDate names)"
proof (induction names)
  case Nil
  then show ?case by simp
next
  case (Cons name names)
  have "tidy P (if int (snd stats) < cutoffDate then fs_unlink (path_join e dirPath name)
                else ret ())" for stats :: "nat \<times> nat"
    using assms(2) by (auto intro: tidy_fs_unlink)
  then have "tidy P (bindIO (fs_stat (path_join e dirPath name)) (\<lambda>stats.
          bindIO (if int (snd stats) < cutoffDate then fs_unlink (path_join e dirPath name)
                  else ret ()) (\<lambda>_. cleanupLoop e dirPath cutoffDate names)))"
    using Cons assms(1) by (intro tidy_bindIO tidy_fs_stat) simp_all
  then show ?case
    using Cons by (simp add: Let_def)
qed

lemma tidiedI: "tidy P m \<Longrightarrow> tidied P w (snd (m w))"
  by (simp add: tidy_def)

lemma cleanupOldBackups_tidied:
  assumes "\<And>d. P (Readdir d)" and "\<And>p. P (Stat p)"
    and "\<And>p. 0 < daysBefore e (now w) (backupRetentionDays e) \<Longrightarrow> P (Unlink p)"
  shows "tidied P w (snd (cleanupOldBackups e directory w))"
proof -
  let ?d = "getAbsolutePath e directory"
  let ?h = "\<lambda>error. consoleLog (ConsoleWarn (ascii ''Warning: Failed to cleanup old backups in ''
                                          @ quoted directory @ ascii '': '' @ render error))"
  let ?w1 = "logged (Readdir ?d) w"
  have t1: "tidied P w ?w1"
    using assms(1) by (simp add: tidied_def newCalls_def logged_def readContent_def lookupFile_def)
  have n1: "now ?w1 = now w"
    by (simp add: now_def logged_def)
  show ?thesis
  proof (cases "fault w (length (fslog w)) (Readdir ?d)")
    case (Some t)
    then have "cleanupOldBackups e directory w = ?h t ?w1"
      by (simp add: cleanupOldBackups_def tryCatch_def bindIO_def fs_readdir_def fsCall_def
            logged_def Let_def)
    moreover have "tidied P ?w1 (snd (?h t ?w1))"
      by (rule tidiedI) simp
    ultimately show ?thesis
      using t1 by (auto intro: tidied_trans)
  next
    case None
    let ?entries = "map (\<lambda>(p, f). path_basename e p [])
               (filter (\<lambda>(p, f). path_join e ?d (path_basename e p []) = p) (files w))"
    let ?w2 = "?w1\<lparr>reads := reads ?w1 + 1\<rparr>"
    let ?loop = "cleanupLoop e ?d (daysBefore e (now w) (backupRetentionDays e)) ?entries"
    have t2: "tidied P ?w1 ?w2"
      by (simp add: tidied_def newCalls_def readContent_def lookupFile_def)
    have tl: "tidy P ?loop"
      using assms(2,3) by (intro tidy_cleanupLoop) simp_all
    have t3: "tidied P ?w2 (snd (?loop ?w2))"
      by (rule tidiedI [OF tl])
    have c: "cleanupOldBackups e directory w = tryCatch ?loop ?h ?w2"
      using None n1
      by (simp add: cleanupOldBackups_def tryCatch_def bindIO_def fs_readdir_def fsCall_def
            dateNow_def logged_def Let_def)
    have "tidied P ?w2 (snd (tryCatch ?loop ?h ?w2))"
      by (rule tidiedI [OF tidy_tryCatch [OF tl]]) simp
    with t1 t2 show ?thesis
      unfolding c by (blast intro: tidied_trans)
  qed
qed

lemma cleanupOldBackups_cleanup_calls:
  "tidied isCleanupCall w (snd (cleanupOldBackups e directory w))"
  by (rule cleanupOldBackups_tidied) simp_all

lemma translateContent_reads:
  assumes "translateContent e content language w = (r, w')"
  shows "reads w' \<le> Suc (reads w)"
  using assms
  by (auto simp: translateContent_def tryCatch_def bindIO_def liftResult_def ret_def throw_def
        anthropicMessagesCreate_def dateNow_def now_def Let_def
      split: sum.splits prod.splits if_splits list.splits content_block.splits)

lemma execute_chain:
  assumes "execute e request w = (Inr r, w')"
  shows "\<exists>parsedUrl w1 w2 w3 w4 w5 info.
           urlParse e (url request) = Inr parsedUrl
         \<and> exists_file e (path parsedUrl) w = (Inr True, w1)
         \<and> readFile e (path parsedUrl) w1 = (Inr (originalContent r), w2)
         \<and> createBackup e (path parsedUrl) w2 = (Inr info, w3)
         \<and> resultBackupPath r = backupPath info
         \<and> translateContent e (originalContent r) (orElse (targetLanguage request) NIHONGO) w3
             = (Inr (translatedContent r), w4)
         \<and> updateFileByMode e (path parsedUrl) (originalContent r) (translatedContent r)
              (orElse (mode request) (ascii ''replace'')) w4 = (Inr (), w5)
         \<and> cleanupOldBackups e (joinSlash (butlast (splitSlash (path parsedUrl)))) w5
             = (Inr (), w')"
proof -
  have h: "isl (fst ((case error of
                  JsError name msg \<Rightarrow> throw error
                | NonError text \<Rightarrow>
                    throw (newError (codeString TRANSLATION_FAILED
                                     @ ascii '': Unknown error occurred''))) w1))"
    for error :: thrown and w1 :: world
    by (simp add: throw_def split: thrown.splits)
  from assms have body:
    "bindIO (liftResult (urlParse e (url request))) (\<lambda>parsedUrl.
        bindIO (liftCheck (urlValidateVault e (vault parsedUrl) (configuredVault e))) (\<lambda>_.
        bindIO (liftCheck (urlValidatePath e (path parsedUrl))) (\<lambda>_.
        bindIO (exists_file e (path parsedUrl)) (\<lambda>found.
        bindIO (if \<not> found then
                  throw (newError (codeString FILE_NOT_FOUND @ ascii '': File ''
                                   @ quoted (path parsedUrl) @ ascii '' not found''))
                else ret ()) (\<lambda>_.
        bindIO (readFile e (path parsedUrl)) (\<lambda>original.
        bindIO (createBackup e (path parsedUrl)) (\<lambda>backupInfo.
        bindIO (translateContent e original (orElse (targetLanguage request) NIHONGO))
          (\<lambda>translated.
        bindIO (updateFileByMode e (path parsedUrl) original translated
                  (orElse (mode request) (ascii ''replace''))) (\<lambda>_.
        bindIO (cleanupOldBackups e (joinSlash (butlast (splitSlash (path parsedUrl))))) (\<lambda>_.
        ret \<lparr>originalContent = original,
             translatedContent = translated,
             resultBackupPath = backupPath backupInfo,
             resultTimestamp = timestamp backupInfo\<rparr>)))))))))) w = (Inr r, w')"
    unfolding execute_def by (rule tryCatch_Inr) (rule h)
  moreover have "liftCheck c v = (Inr x, v') \<longleftrightarrow> c = None \<and> v' = v"
    for c and v v' :: world and x :: unit
    by (auto simp: liftCheck_def split: option.splits)
  moreover have "(if \<not> found then throw t else ret ()) v = (Inr x, v') \<longleftrightarrow> found \<and> v' = v"
    for found t and v v' :: world and x :: unit
    by (auto simp: throw_def ret_def)
  ultimately show ?thesis
    by (simp add: bindIO_Inr liftResult_def ret_def) force
qed

lemma execute_replace_effect:
  assumes "execute e request w = (Inr r, w')" and "mode request = Some (ascii ''replace'')"
  shows "\<exists>parsedUrl w5.
           urlParse e (url request) = Inr parsedUrl
         \<and> fslog w5 = fslog w @
               [Access (getAbsolutePath e (path parsedUrl)),
                ReadFile (getAbsolutePath e (path parsedUrl)),
                ReadFile (getAbsolutePath e (path parsedUrl)),
                WriteFile (getAbsolutePath e (resultBackupPath r)) (originalContent r),
                Stat (getAbsolutePath e (resultBackupPath r)),
                Mkdir (path_dirname e (getAbsolutePath e (path parsedUrl))),
                WriteFile (getAbsolutePath e (path parsedUrl)) (translatedContent r)]
         \<and> readContent w5 (getAbsolutePath e (path parsedUrl)) = Some (translatedContent r)
         \<and> clock w5 = clock w \<and> reads w5 \<le> reads w + 2
         \<and> cleanupOldBackups e (joinSlash (butlast (splitSlash (path parsedUrl)))) w5
             = (Inr (), w')"
proof -
  from execute_chain [OF assms(1)] obtain parsedUrl w1 w2 w3 w4 w5 info where
    p: "urlParse e (url request) = Inr parsedUrl"
    and h1: "exists_file e (path parsedUrl) w = (Inr True, w1)"
    and h2: "readFile e (path parsedUrl) w1 = (Inr (originalContent r), w2)"
    and h3: "createBackup e (path parsedUrl) w2 = (Inr info, w3)"
    and bp: "resultBackupPath r = backupPath info"
    and h4: "translateContent e (originalContent r) (orElse (targetLanguage request) NIHONGO) w3
             = (Inr (translatedContent r), w4)"
    and h5: "updateFileByMode e (path parsedUrl) (originalContent r) (translatedContent r)
              (orElse (mode request) (ascii ''replace'')) w4 = (Inr (), w5)"
    and h6: "cleanupOldBackups e (joinSlash (butlast (splitSlash (path parsedUrl)))) w5
             = (Inr (), w')"
    by blast
  let ?a = "getAbsolutePath e (path parsedUrl)"
  let ?b = "getAbsolutePath e (resultBackupPath r)"
  let ?t = "translatedContent r"
  have l1: "fslog w1 = fslog w @ [Access ?a]"
    using h1 by (auto simp: exists_file_eq)
  from readFile_Inr [OF h2] have r1: "readContent w1 ?a = Some (originalContent r)"
    and l2: "fslog w2 = fslog w1 @ [ReadFile ?a]"
    by simp_all
  from readFile_Inr [OF h2] have r2: "readContent w2 ?a = Some (originalContent r)"
    using r1 by (simp add: readContent_def lookupFile_def)
  from createBackup_Inr [OF h3] obtain c where
    c: "readContent w2 ?a = Some c"
    and w3: "w3 = w2\<lparr>files := putFile (getAbsolutePath e (backupPath info))
                                  (c, clock w2 (Suc (reads w2))) (files w2),
                      fslog := fslog w2 @ [ReadFile ?a,
                                          WriteFile (getAbsolutePath e (backupPath info)) c,
                                          Stat (getAbsolutePath e (backupPath info))],
                      reads := Suc (reads w2)\<rparr>"
    by blast
  have l3: "fslog w3 = fslog w2 @ [ReadFile ?a, WriteFile (getAbsolutePath e (backupPath info)) c,
                                    Stat (getAbsolutePath e (backupPath info))]"
    by (subst w3) simp
  from c r2 have co: "c = originalContent r"
    by simp
  from translateContent_frame [OF h4] have l4: "fslog w4 = fslog w3" and c4: "clock w4 = clock w3"
    by simp_all
  have k1: "clock w1 = clock w \<and> reads w1 = reads w"
    using h1 by (auto simp: exists_file_eq)
  from readFile_Inr [OF h2] have k2: "clock w2 = clock w1 \<and> reads w2 = reads w1"
    by simp
  have k3: "clock w3 = clock w2 \<and> reads w3 = Suc (reads w2)"
    by (subst (1 2) w3) simp
  note k4 = translateContent_reads [OF h4]
  have "orElse (mode request) (ascii ''replace'') = ascii ''replace''"
    using assms(2) by (simp add: ascii_def)
  with h5 have wf: "writeFile e (path parsedUrl) ?t w4 = (Inr (), w5)"
    by (simp add: updateFileByMode_def)
  have w5: "w5 = (logged (WriteFile ?a ?t)
                        (logged (Mkdir (path_dirname e ?a)) w4))
                      \<lparr>files := putFile ?a (?t, now w4) (files w4)\<rparr>"
  proof (cases "fault w4 (length (fslog w4)) (Mkdir (path_dirname e ?a))")
    case (Some t)
    with wf show ?thesis by (simp add: writeFile_eq)
  next
    case None
    show ?thesis
    proof (cases "fault w4 (Suc (length (fslog w4))) (WriteFile ?a ?t)")
      case (Some t)
      with wf None show ?thesis by (simp add: writeFile_eq)
    next
      case n: None
      with wf None show ?thesis by (simp add: writeFile_eq)
    qed
  qed
  have l5: "fslog w5 = fslog w4 @ [Mkdir (path_dirname e ?a), WriteFile ?a ?t]"
    by (subst w5) simp
  have r5: "readContent w5 ?a = Some ?t"
    by (subst w5) (simp add: readContent_def lookupFile_def lookup_putFile)
  have "fslog w5 = fslog w @
          [Access ?a, ReadFile ?a, ReadFile ?a, WriteFile ?b (originalContent r), Stat ?b,
           Mkdir (path_dirname e ?a), WriteFile ?a ?t]"
    by (simp add: l5 l4 l3 l2 l1 co bp)
  moreover have "clock w5 = clock w" and "reads w5 \<le> reads w + 2"
    using k1 k2 k3 k4 c4 by (subst w5, simp)+
  ultimately show ?thesis
    using p r5 h6 by blast
qed

lemma execute_replace_calls:
  assumes "execute e request w = (Inr r, w')" and "mode request = Some (ascii ''replace'')"
  shows "\<exists>parsedUrl.
           urlParse e (url request) = Inr parsedUrl
         \<and> take 7 (newCalls w w') =
               [Access (getAbsolutePath e (path parsedUrl)),
                ReadFile (getAbsolutePath e (path parsedUrl)),
                ReadFile (getAbsolutePath e (path parsedUrl)),
                WriteFile (getAbsolutePath e (resultBackupPath r)) (originalContent r),
                Stat (getAbsolutePath e (resultBackupPath r)),
                Mkdir (path_dirname e (getAbsolutePath e (path parsedUrl))),
                WriteFile (getAbsolutePath e (path parsedUrl)) (translatedContent r)]
         \<and> (\<forall>c \<in> set (drop 7 (newCalls w w')). isCleanupCall c)
         \<and> (readContent w' (getAbsolutePath e (path parsedUrl)) = Some (translatedContent r)
              \<or> Unlink (getAbsolutePath e (path parsedUrl)) \<in> set (drop 7 (newCalls w w')))"
proof -
  from execute_replace_effect [OF assms] obtain parsedUrl w5 where
    p: "urlParse e (url request) = Inr parsedUrl"
    and l: "fslog w5 = fslog w @
               [Access (getAbsolutePath e (path parsedUrl)),
                ReadFile (getAbsolutePath e (path parsedUrl)),
                ReadFile (getAbsolutePath e (path parsedUrl)),
                WriteFile (getAbsolutePath e (resultBackupPath r)) (originalContent r),
                Stat (getAbsolutePath e (resultBackupPath r)),
                Mkdir (path_dirname e (getAbsolutePath e (path parsedUrl))),
                WriteFile (getAbsolutePath e (path parsedUrl)) (translatedContent r)]"
    and r: "readContent w5 (getAbsolutePath e (path parsedUrl)) = Some (translatedContent r)"
    and h: "cleanupOldBackups e (joinSlash (butlast (splitSlash (path parsedUrl)))) w5
             = (Inr (), w')"
    by blast
  from cleanupOldBackups_cleanup_calls
         [of w5 e "joinSlash (butlast (splitSlash (path parsedUrl)))"] h
  have t: "tidied isCleanupCall w5 w'"
    by simp
  from l have p1: "prefix (fslog w) (fslog w5)"
    by simp
  from t have p2: "prefix (fslog w5) (fslog w')"
    by (simp add: tidied_def)
  have n5: "newCalls w w5 =
               [Access (getAbsolutePath e (path parsedUrl)),
                ReadFile (getAbsolutePath e (path parsedUrl)),
                ReadFile (getAbsolutePath e (path parsedUrl)),
                WriteFile (getAbsolutePath e (resultBackupPath r)) (originalContent r),
                Stat (getAbsolutePath e (resultBackupPath r)),
                Mkdir (path_dirname e (getAbsolutePath e (path parsedUrl))),
                WriteFile (getAbsolutePath e (path parsedUrl)) (translatedContent r)]"
    by (simp add: newCalls_def l)
  have n: "newCalls w w' = newCalls w w5 @ newCalls w5 w'"
    by (rule newCalls_append [OF p1 p2])
  have tk: "take 7 (newCalls w w') = newCalls w w5" and dr: "drop 7 (newCalls w w') = newCalls w5 w'"
    unfolding n by (simp_all add: n5)
  from t have "\<forall>c \<in> set (newCalls w5 w'). isCleanupCall c"
    and "readContent w' (getAbsolutePath e (path parsedUrl))
           = readContent w5 (getAbsolutePath e (path parsedUrl))
         \<or> Unlink (getAbsolutePath e (path parsedUrl)) \<in> set (newCalls w5 w')"
    by (simp_all add: tidied_def)
  with p r show ?thesis
    unfolding tk dr n5 by auto
qed



end
